theory Spec2Isabelle
  imports Main
begin

section \<open>Strings, errors and the host environment\<close>

text \<open>
  JavaScript strings are modelled as HOL strings, one character for each code unit;
  the model is exact for ASCII names and patterns, and the connectors of the tree are
  kept as the UTF-8 bytes of the source's literals.  The library services the walker
  relies on (\<^verbatim>\<open>path.join\<close>, \<^verbatim>\<open>RegExp\<close>, \<^verbatim>\<open>Array.prototype.sort\<close> and the \<^verbatim>\<open>fs\<close>
  calls) are part of the Node runtime, not of the repository; they are modelled below,
  and the collation \<^verbatim>\<open>localeCompare\<close> is a parameter.  For the ignore patterns the
  expressions are modelled by a fragment of the pattern language: whenever that model
  has no answer (syntax outside the fragment, or a non-ASCII character) it returns the
  outcome \<open>Unmodelled\<close>, which is propagated like an exception and never caught, so that
  every statement about a proper result of the walk or about a \<^verbatim>\<open>SyntaxError\<close> of an
  ignore pattern is a statement about the modelled fragment only.  For the keys of the
  description table the expression engine is a parameter.
\<close>

datatype errno = ENOENT | EACCES | ENOTDIR | EIO

datatype error = SyntaxError | SystemError errno | Unmodelled

definition backslash :: char where
  "backslash = CHR 0x5C"

definition ascii :: "char \<Rightarrow> bool" where
  "ascii c = ((of_char c :: nat) < 128)"

definition alphanumeric :: "char \<Rightarrow> bool" where
  "alphanumeric c =
     (let n = (of_char c :: nat)
      in (48 \<le> n \<and> n \<le> 57) \<or> (65 \<le> n \<and> n \<le> 90) \<or> (97 \<le> n \<and> n \<le> 122) \<or> n = 95)"

definition is_line_terminator :: "char \<Rightarrow> bool" where
  "is_line_terminator c = (c = CHR 0x0A \<or> c = CHR 0x0D)"

section \<open>\<^verbatim>\<open>path.join\<close> (POSIX)\<close>

text \<open>
  \<^verbatim>\<open>String.prototype.split\<close> on a one-character separator: the pieces between the
  separators, always at least one piece.
\<close>

fun split_on :: "char \<Rightarrow> string \<Rightarrow> string list" where
  "split_on sep [] = [[]]"
| "split_on sep (c # cs) =
     (if c = sep then [] # split_on sep cs
      else (case split_on sep cs of
              [] \<Rightarrow> [[c]]
            | p # ps \<Rightarrow> (c # p) # ps))"

fun join_with :: "string \<Rightarrow> string list \<Rightarrow> string" where
  "join_with sep [] = []"
| "join_with sep [x] = x"
| "join_with sep (x # y # ys) = x @ sep @ join_with sep (y # ys)"

text \<open>
  Node's \<^verbatim>\<open>normalizeString\<close>, one segment at a time: empty and \<^verbatim>\<open>.\<close> segments are
  dropped, \<^verbatim>\<open>..\<close> removes the previous segment unless there is none or it is \<^verbatim>\<open>..\<close>
  itself, in which case it is kept only for relative paths.
\<close>

definition normalize_step :: "bool \<Rightarrow> string list \<Rightarrow> string \<Rightarrow> string list" where
  "normalize_step allowAboveRoot res seg =
     (if seg = [] \<or> seg = ''.'' then res
      else if seg = ''..'' then
        (if res \<noteq> [] \<and> last res \<noteq> ''..'' then butlast res
         else if allowAboveRoot then res @ [''..''] else res)
      else res @ [seg])"

definition normalizeSegments :: "string \<Rightarrow> bool \<Rightarrow> string list" where
  "normalizeSegments p allowAboveRoot =
     foldl (normalize_step allowAboveRoot) [] (split_on CHR ''/'' p)"

definition normalizeString :: "string \<Rightarrow> bool \<Rightarrow> string" where
  "normalizeString p allowAboveRoot = join_with ''/'' (normalizeSegments p allowAboveRoot)"

definition path_normalize :: "string \<Rightarrow> string" where
  "path_normalize p =
     (if p = [] then ''.''
      else
        let isAbsolute = (hd p = CHR ''/'');
            trailingSeparator = (last p = CHR ''/'');
            q = normalizeString p (\<not> isAbsolute)
        in if q = [] then (if isAbsolute then ''/'' else if trailingSeparator then ''./'' else ''.'')
           else (if isAbsolute then ''/'' else []) @ q @ (if trailingSeparator then ''/'' else []))"

text \<open>\<^verbatim>\<open>path.join(a, b)\<close>: the non-empty arguments joined by a slash, then normalised.\<close>

definition path_join :: "string \<Rightarrow> string \<Rightarrow> string" where
  "path_join a b =
     (let joined = (if a = [] then b else if b = [] then a else a @ ''/'' @ b)
      in if joined = [] then ''.'' else path_normalize joined)"

section \<open>\<^verbatim>\<open>RegExp\<close>: a fragment of the pattern language\<close>

text \<open>
  The fragment: literal characters, \<^verbatim>\<open>.\<close>, the anchors \<^verbatim>\<open>^\<close> and \<^verbatim>\<open>$\<close> (no flags, so
  they match at the two ends of the input only), alternation, capturing and \<^verbatim>\<open>(?:\<close>
  groups, the quantifiers \<^verbatim>\<open>*\<close>, \<^verbatim>\<open>+\<close>, \<^verbatim>\<open>?\<close> with their lazy forms, and a backslash
  before a punctuation character.  Character classes, braces, escapes that start with
  a letter, a digit or an underscore, and the other \<^verbatim>\<open>(?\<close> groups are \<open>Unmodelled\<close>.
  Since the fragment has neither captures that are read back nor look-around,
  \<^verbatim>\<open>test\<close> only depends on the set of positions where a match can end.
\<close>

datatype regex =
    Chr char
  | AnyChar
  | Bol
  | Eol
  | Eps
  | Seq regex regex
  | Alt regex regex
  | Star regex

text \<open>What a quantifier that comes next would apply to.\<close>

datatype quantifiable = NoAtom | AtomQ | Quantified | Lazy

text \<open>
  One open group of the parser: its finished alternatives and the terms of the
  alternative being read, both most recent first.
\<close>

datatype frame = Frame (alts: "regex list") (terms: "regex list") (lastq: quantifiable)

definition mk_seq :: "regex list \<Rightarrow> regex" where
  "mk_seq ts = foldr Seq ts Eps"

fun mk_alt :: "regex list \<Rightarrow> regex" where
  "mk_alt [] = Eps"
| "mk_alt [r] = r"
| "mk_alt (r # rs) = Alt r (mk_alt rs)"

definition close_frame :: "frame \<Rightarrow> regex" where
  "close_frame f = mk_alt (rev (mk_seq (rev (terms f)) # alts f))"

definition push_term :: "regex \<Rightarrow> quantifiable \<Rightarrow> frame \<Rightarrow> frame" where
  "push_term t q f = Frame (alts f) (t # terms f) q"

fun parse :: "frame \<Rightarrow> frame list \<Rightarrow> string \<Rightarrow> error + regex" where
  "parse f stack [] = (if stack = [] then Inr (close_frame f) else Inl SyntaxError)"
| "parse f stack (c # cs) =
     (if \<not> ascii c then Inl Unmodelled
      else if c = CHR ''('' then
        (case cs of
           [] \<Rightarrow> Inl SyntaxError
         | d # ds \<Rightarrow>
             if d = CHR ''?'' then
               (case ds of
                  [] \<Rightarrow> Inl Unmodelled
                | e # es \<Rightarrow>
                    if e = CHR '':'' then parse (Frame [] [] NoAtom) (f # stack) es
                    else Inl Unmodelled)
             else parse (Frame [] [] NoAtom) (f # stack) cs)
      else if c = CHR '')'' then
        (case stack of
           [] \<Rightarrow> Inl SyntaxError
         | g # stack' \<Rightarrow> parse (push_term (close_frame f) AtomQ g) stack' cs)
      else if c = CHR ''|'' then
        parse (Frame (mk_seq (rev (terms f)) # alts f) [] NoAtom) stack cs
      else if c = CHR ''*'' \<or> c = CHR ''+'' then
        (case terms f of
           [] \<Rightarrow> Inl SyntaxError
         | t # ts \<Rightarrow>
             if lastq f = AtomQ then
               parse (Frame (alts f) ((if c = CHR ''*'' then Star t else Seq t (Star t)) # ts)
                        Quantified) stack cs
             else Inl SyntaxError)
      else if c = CHR ''?'' then
        (case terms f of
           [] \<Rightarrow> Inl SyntaxError
         | t # ts \<Rightarrow>
             if lastq f = AtomQ then parse (Frame (alts f) (Alt t Eps # ts) Quantified) stack cs
             else if lastq f = Quantified then parse (Frame (alts f) (t # ts) Lazy) stack cs
             else Inl SyntaxError)
      else if c = CHR ''^'' then parse (push_term Bol NoAtom f) stack cs
      else if c = CHR ''$'' then parse (push_term Eol NoAtom f) stack cs
      else if c = CHR ''.'' then parse (push_term AnyChar AtomQ f) stack cs
      else if c = backslash then
        (case cs of
           [] \<Rightarrow> Inl SyntaxError
         | d # ds \<Rightarrow>
             if \<not> ascii d \<or> alphanumeric d then Inl Unmodelled
             else parse (push_term (Chr d) AtomQ f) stack ds)
      else if c = CHR ''['' \<or> c = CHR '']'' \<or> c = CHR ''{'' \<or> c = CHR ''}'' then Inl Unmodelled
      else parse (push_term (Chr c) AtomQ f) stack cs)"

text \<open>\<^verbatim>\<open>new RegExp(pattern)\<close>: the compiled expression, or the \<^verbatim>\<open>SyntaxError\<close> it throws.\<close>

definition RegExp_new :: "string \<Rightarrow> error + regex" where
  "RegExp_new pattern = parse (Frame [] [] NoAtom) [] pattern"

text \<open>
  The ways an expression can match at a position.  A position is the rest of the
  input together with the flag that it is the start of the input.
\<close>

fun ends :: "regex \<Rightarrow> bool \<times> string \<Rightarrow> (bool \<times> string) list" where
  "ends (Chr c) st =
     (case snd st of [] \<Rightarrow> [] | x # xs \<Rightarrow> if x = c then [(False, xs)] else [])"
| "ends AnyChar st =
     (case snd st of [] \<Rightarrow> [] | x # xs \<Rightarrow> if is_line_terminator x then [] else [(False, xs)])"
| "ends Bol st = (if fst st then [st] else [])"
| "ends Eol st = (if snd st = [] then [st] else [])"
| "ends Eps st = [st]"
| "ends (Seq r1 r2) st = concat (map (ends r2) (ends r1 st))"
| "ends (Alt r1 r2) st = ends r1 st @ ends r2 st"
| "ends (Star r) st =
     st # concat (map (\<lambda>st'. if length (snd st') < length (snd st) then ends (Star r) st' else [])
                   (ends r st))"

text \<open>An unanchored search: a match may start at any position of the input.\<close>

fun search :: "regex \<Rightarrow> bool \<Rightarrow> string \<Rightarrow> bool" where
  "search r b [] = (ends r (b, []) \<noteq> [])"
| "search r b (c # cs) = (ends r (b, c # cs) \<noteq> [] \<or> search r False cs)"

text \<open>\<^verbatim>\<open>regex.test(s)\<close> for an expression without flags.\<close>

definition RegExp_test :: "regex \<Rightarrow> string \<Rightarrow> error + bool" where
  "RegExp_test regex s = (if list_all ascii s then Inr (search regex True s) else Inl Unmodelled)"

section \<open>Configuration, directory entries and the file system\<close>

record ignore_policy =
  directories :: "string list"
  files :: "string list"
  patterns :: "string list"

text \<open>
  The two description tables are JSON objects; they are kept as the list of their own
  entries, with string values, in the order \<^verbatim>\<open>Object.entries\<close> enumerates them.
  The depth bound is a natural number.
\<close>

record config =
  ignore :: ignore_policy
  maxDepth :: nat
  includeDescriptions :: bool
  directoryDescriptions :: "(string \<times> string) list"
  filePatternDescriptions :: "(string \<times> string) list"

datatype dirent = Dirent (entry_name: string) (entry_isDirectory: bool)

record stats =
  size :: nat

record file_record =
  path :: string
  relativePath :: string
  stats :: stats

text \<open>
  The file system as the walker sees it: what \<^verbatim>\<open>fs.readdir(p, {withFileTypes: true})\<close>
  and \<^verbatim>\<open>fs.stat(p)\<close> answer for a path, a rejected promise being the left summand.
  A listing is in the order the call returns it.
\<close>

record filesystem =
  readdir :: "string \<Rightarrow> errno + dirent list"
  stat :: "string \<Rightarrow> errno + stats"

section \<open>\<^verbatim>\<open>lib/utils.js\<close>\<close>

text \<open>The two \<^verbatim>\<open>replace\<close> calls that turn an ignore pattern into an expression source.\<close>

definition replace_dots :: "string \<Rightarrow> string" where
  "replace_dots p = concat (map (\<lambda>c. if c = CHR ''.'' then [backslash, CHR ''.''] else [c]) p)"

definition replace_stars :: "string \<Rightarrow> string" where
  "replace_stars p = concat (map (\<lambda>c. if c = CHR ''*'' then ''.*'' else [c]) p)"

definition pattern_source :: "string \<Rightarrow> string" where
  "pattern_source pattern = ''^'' @ replace_stars (replace_dots pattern) @ ''$''"

text \<open>
  \<^verbatim>\<open>config.ignore.patterns.some(...)\<close>: the patterns are tried in order, the first
  that matches ends the search, and an exception of the callback ends the whole call.
\<close>

fun some_pattern :: "string \<Rightarrow> string \<Rightarrow> string list \<Rightarrow> error + bool" where
  "some_pattern nm relPath [] = Inr False"
| "some_pattern nm relPath (pattern # rest) =
     (case RegExp_new (pattern_source pattern) of
        Inl e \<Rightarrow> Inl e
      | Inr regex \<Rightarrow>
          (case RegExp_test regex nm of
             Inl e \<Rightarrow> Inl e
           | Inr True \<Rightarrow> Inr True
           | Inr False \<Rightarrow>
               (case RegExp_test regex relPath of
                  Inl e \<Rightarrow> Inl e
                | Inr True \<Rightarrow> Inr True
                | Inr False \<Rightarrow> some_pattern nm relPath rest)))"

definition shouldIgnore :: "string \<Rightarrow> bool \<Rightarrow> string \<Rightarrow> config \<Rightarrow> error + bool" where
  "shouldIgnore nm isDirectory relPath cfg =
     (let literals = (if isDirectory then directories (ignore cfg) else files (ignore cfg))
      in if nm \<in> set literals then Inr True
         else some_pattern nm relPath (patterns (ignore cfg)))"

text \<open>
  \<^verbatim>\<open>getAllFiles\<close> and the body of its \<^verbatim>\<open>for\<close> loop over the entries that are left,
  with the array \<^verbatim>\<open>results\<close> collected so far.  A rejected \<^verbatim>\<open>await\<close> and a thrown
  exception leave the function at once, since it has no handler.
\<close>

function getAllFiles ::
    "filesystem \<Rightarrow> config \<Rightarrow> string \<Rightarrow> nat \<Rightarrow> string \<Rightarrow> error + file_record list"
  and getAllFiles_loop ::
    "filesystem \<Rightarrow> config \<Rightarrow> string \<Rightarrow> nat \<Rightarrow> string \<Rightarrow> dirent list \<Rightarrow> file_record list
       \<Rightarrow> error + file_record list"
where
  "getAllFiles fs cfg rootDir currentDepth relPath =
     (if currentDepth > maxDepth cfg then Inr []
      else (case readdir fs rootDir of
              Inl e \<Rightarrow> Inl (SystemError e)
            | Inr entries \<Rightarrow> getAllFiles_loop fs cfg rootDir currentDepth relPath entries []))"
| "getAllFiles_loop fs cfg rootDir currentDepth relPath [] results = Inr results"
| "getAllFiles_loop fs cfg rootDir currentDepth relPath (entry # rest) results =
     (case shouldIgnore (entry_name entry) (entry_isDirectory entry)
             (path_join relPath (entry_name entry)) cfg of
        Inl e \<Rightarrow> Inl e
      | Inr ignored \<Rightarrow>
          if ignored then getAllFiles_loop fs cfg rootDir currentDepth relPath rest results
          else if entry_isDirectory entry then
            (case getAllFiles fs cfg (path_join rootDir (entry_name entry)) (currentDepth + 1)
                    (path_join relPath (entry_name entry)) of
               Inl e \<Rightarrow> Inl e
             | Inr subFiles \<Rightarrow>
                 getAllFiles_loop fs cfg rootDir currentDepth relPath rest (results @ subFiles))
          else
            (case stat fs (path_join rootDir (entry_name entry)) of
               Inl e \<Rightarrow> Inl (SystemError e)
             | Inr st \<Rightarrow>
                 getAllFiles_loop fs cfg rootDir currentDepth relPath rest
                   (results @ [\<lparr>path = path_join rootDir (entry_name entry),
                                relativePath = path_join relPath (entry_name entry),
                                stats = st\<rparr>])))"
  by pat_completeness auto
termination
  by (relation "inv_image (less_than <*lex*> less_than)
        (\<lambda>x. case x of
           Inl (fs, cfg, rootDir, d, relPath) \<Rightarrow> (2 * (maxDepth cfg - d) + (if d \<le> maxDepth cfg then 4 else 2), 0)
         | Inr (fs, cfg, rootDir, d, relPath, es, results) \<Rightarrow> (2 * (maxDepth cfg - d) + 3, length es))")
    auto

section \<open>\<^verbatim>\<open>lib/markdown-generator.js\<close>\<close>

text \<open>The connectors of the tree, as the UTF-8 bytes of the source's literals.\<close>

definition glyph_last :: string where
  "glyph_last = [CHR 0xE2, CHR 0x94, CHR 0x94, CHR 0xE2, CHR 0x94, CHR 0x80,
                 CHR 0xE2, CHR 0x94, CHR 0x80, CHR 0x20]"

definition glyph_not_last :: string where
  "glyph_not_last = [CHR 0xE2, CHR 0x94, CHR 0x9C, CHR 0xE2, CHR 0x94, CHR 0x80,
                     CHR 0xE2, CHR 0x94, CHR 0x80, CHR 0x20]"

definition indent_last :: string where
  "indent_last = [CHR 0x20, CHR 0x20, CHR 0x20, CHR 0x20]"

definition indent_not_last :: string where
  "indent_not_last = [CHR 0xE2, CHR 0x94, CHR 0x82, CHR 0x20, CHR 0x20, CHR 0x20]"

definition newline :: string where
  "newline = [CHR 0x0A]"

text \<open>
  The comparison function handed to \<^verbatim>\<open>entries.sort\<close>.  \<^verbatim>\<open>localeCompare\<close> is the
  collation of the host and is a parameter.
\<close>

definition compareEntries :: "(string \<Rightarrow> string \<Rightarrow> int) \<Rightarrow> dirent \<Rightarrow> dirent \<Rightarrow> int" where
  "compareEntries localeCompare a b =
     (if entry_isDirectory a \<and> \<not> entry_isDirectory b then - 1
      else if \<not> entry_isDirectory a \<and> entry_isDirectory b then 1
      else localeCompare (entry_name a) (entry_name b))"

text \<open>\<^verbatim>\<open>Array.prototype.sort\<close> is stable; it is modelled by a stable insertion sort.\<close>

fun insert_sorted :: "('a \<Rightarrow> 'a \<Rightarrow> int) \<Rightarrow> 'a \<Rightarrow> 'a list \<Rightarrow> 'a list" where
  "insert_sorted cmp x [] = [x]"
| "insert_sorted cmp x (y # ys) =
     (if cmp x y \<le> 0 then x # y # ys else y # insert_sorted cmp x ys)"

definition array_sort :: "('a \<Rightarrow> 'a \<Rightarrow> int) \<Rightarrow> 'a list \<Rightarrow> 'a list" where
  "array_sort cmp xs = foldr (insert_sorted cmp) xs []"

text \<open>A string or \<^verbatim>\<open>null\<close>/\<^verbatim>\<open>undefined\<close> in a condition: true for a non-empty string.\<close>

fun truthy :: "string option \<Rightarrow> bool" where
  "truthy None = False"
| "truthy (Some d) = (d \<noteq> [])"

text \<open>
  The keys of \<^verbatim>\<open>filePatternDescriptions\<close> are expressions the user writes in full, so
  for them the expression engine of the host is a parameter: for the source text of a
  pattern it answers \<open>None\<close> when \<^verbatim>\<open>new RegExp\<close> throws its \<^verbatim>\<open>SyntaxError\<close>, and
  otherwise the \<^verbatim>\<open>test\<close> function of the compiled expression.  What is proved about
  the descriptions holds for every engine, hence for every key, whatever its syntax.
\<close>

type_synonym regexp_engine = "string \<Rightarrow> (string \<Rightarrow> bool) option"

text \<open>
  The members every object inherits from \<^verbatim>\<open>Object.prototype\<close>, each with the text it
  yields in a template literal (as V8 prints native functions), and the property
  access \<^verbatim>\<open>object[key]\<close> on a JSON object: an own entry first, then an inherited
  member.
\<close>

definition Object_prototype :: "(string \<times> string) list" where
  "Object_prototype =
     [(''constructor'', ''function Object() { [native code] }''),
      (''__defineGetter__'', ''function __defineGetter__() { [native code] }''),
      (''__defineSetter__'', ''function __defineSetter__() { [native code] }''),
      (''hasOwnProperty'', ''function hasOwnProperty() { [native code] }''),
      (''__lookupGetter__'', ''function __lookupGetter__() { [native code] }''),
      (''__lookupSetter__'', ''function __lookupSetter__() { [native code] }''),
      (''isPrototypeOf'', ''function isPrototypeOf() { [native code] }''),
      (''propertyIsEnumerable'', ''function propertyIsEnumerable() { [native code] }''),
      (''toString'', ''function toString() { [native code] }''),
      (''valueOf'', ''function valueOf() { [native code] }''),
      (''__proto__'', ''[object Object]''),
      (''toLocaleString'', ''function toLocaleString() { [native code] }'')]"

definition property :: "(string \<times> string) list \<Rightarrow> string \<Rightarrow> string option" where
  "property object key =
     (case map_of object key of
        Some v \<Rightarrow> Some v
      | None \<Rightarrow> map_of Object_prototype key)"

text \<open>
  The loop of \<^verbatim>\<open>getDescription\<close> over the entries of \<^verbatim>\<open>filePatternDescriptions\<close>.  The
  console is the list of the lines written by \<^verbatim>\<open>console.warn\<close>.  The \<^verbatim>\<open>catch\<close> clause
  handles the \<^verbatim>\<open>SyntaxError\<close> of \<^verbatim>\<open>new RegExp\<close>.
\<close>

fun getDescription_patterns ::
    "regexp_engine \<Rightarrow> string \<Rightarrow> (string \<times> string) list \<Rightarrow> string list
       \<Rightarrow> string option \<times> string list"
where
  "getDescription_patterns engine relPath [] console = (None, console)"
| "getDescription_patterns engine relPath ((pattern, description) # rest) console =
     (case engine pattern of
        None \<Rightarrow>
          getDescription_patterns engine relPath rest
            (console @ [''Invalid regex pattern: '' @ pattern])
      | Some test \<Rightarrow>
          if test relPath then (Some description, console)
          else getDescription_patterns engine relPath rest console)"

definition getDescription ::
    "regexp_engine \<Rightarrow> string \<Rightarrow> bool \<Rightarrow> config \<Rightarrow> string list \<Rightarrow> string option \<times> string list"
where
  "getDescription engine relPath isDirectory cfg console =
     (if isDirectory \<and> truthy (property (directoryDescriptions cfg) relPath)
      then (property (directoryDescriptions cfg) relPath, console)
      else if \<not> isDirectory
      then getDescription_patterns engine relPath (filePatternDescriptions cfg) console
      else (None, console))"

definition linePrefix :: "string \<Rightarrow> bool \<Rightarrow> string" where
  "linePrefix prefix isLast = prefix @ (if isLast then glyph_last else glyph_not_last)"

definition childPrefix :: "string \<Rightarrow> bool \<Rightarrow> string" where
  "childPrefix prefix isLast = prefix @ (if isLast then indent_last else indent_not_last)"

definition description_suffix :: "string option \<Rightarrow> string" where
  "description_suffix desc = (case desc of None \<Rightarrow> [] | Some d \<Rightarrow> if d \<noteq> [] then '' # '' @ d else [])"

text \<open>
  \<^verbatim>\<open>generateTree\<close> and the body of its loop over the sorted entries that are left.
  The index \<^verbatim>\<open>i\<close> equals \<^verbatim>\<open>entries.length - 1\<close> exactly when no entry is left after
  the current one.
\<close>

function generateTree ::
    "regexp_engine \<Rightarrow> (string \<Rightarrow> string \<Rightarrow> int) \<Rightarrow> filesystem \<Rightarrow> config \<Rightarrow> string \<Rightarrow> nat
       \<Rightarrow> string \<Rightarrow> string \<Rightarrow> string list \<Rightarrow> (error + string) \<times> string list"
  and generateTree_loop ::
    "regexp_engine \<Rightarrow> (string \<Rightarrow> string \<Rightarrow> int) \<Rightarrow> filesystem \<Rightarrow> config \<Rightarrow> string \<Rightarrow> nat
       \<Rightarrow> string \<Rightarrow> string \<Rightarrow> dirent list \<Rightarrow> string \<Rightarrow> string list
       \<Rightarrow> (error + string) \<times> string list"
where
  "generateTree engine localeCompare fs cfg dirPath depth prefix relPath console =
     (if depth > maxDepth cfg then (Inr [], console)
      else (case readdir fs dirPath of
              Inl e \<Rightarrow> (Inl (SystemError e), console)
            | Inr entries \<Rightarrow>
                generateTree_loop engine localeCompare fs cfg dirPath depth prefix relPath
                  (array_sort (compareEntries localeCompare) entries) [] console))"
| "generateTree_loop engine localeCompare fs cfg dirPath depth prefix relPath [] result console =
     (Inr result, console)"
| "generateTree_loop engine localeCompare fs cfg dirPath depth prefix relPath (entry # rest)
       result console =
     (case shouldIgnore (entry_name entry) (entry_isDirectory entry)
             (path_join relPath (entry_name entry)) cfg of
        Inl e \<Rightarrow> (Inl e, console)
      | Inr ignored \<Rightarrow>
          if ignored
          then generateTree_loop engine localeCompare fs cfg dirPath depth prefix relPath rest
                 result console
          else
            (case (if includeDescriptions cfg
                   then getDescription engine (path_join relPath (entry_name entry))
                          (entry_isDirectory entry) cfg console
                   else (None, console)) of
               (desc, console') \<Rightarrow>
                 if entry_isDirectory entry then
                   (case generateTree engine localeCompare fs cfg
                           (path_join dirPath (entry_name entry))
                           (depth + 1) (childPrefix prefix (rest = []))
                           (path_join relPath (entry_name entry)) console' of
                      (Inl e, console'') \<Rightarrow> (Inl e, console'')
                    | (Inr children, console'') \<Rightarrow>
                        generateTree_loop engine localeCompare fs cfg dirPath depth prefix relPath
                          rest
                          (result @ linePrefix prefix (rest = []) @ entry_name entry
                             @ description_suffix desc @ newline @ children)
                          console'')
                 else
                   generateTree_loop engine localeCompare fs cfg dirPath depth prefix relPath rest
                     (result @ linePrefix prefix (rest = []) @ entry_name entry
                        @ description_suffix desc @ newline)
                     console'))"
  by pat_completeness auto
termination
  by (relation "inv_image (less_than <*lex*> less_than)
        (\<lambda>x. case x of
           Inl (engine, lc, fs, cfg, dirPath, d, prefix, relPath, console) \<Rightarrow>
             (2 * (maxDepth cfg - d) + (if d \<le> maxDepth cfg then 4 else 2), 0)
         | Inr (engine, lc, fs, cfg, dirPath, d, prefix, relPath, es, result, console) \<Rightarrow>
             (2 * (maxDepth cfg - d) + 3, length es))")
    auto

section \<open>Notions used in the statements and proofs\<close>

text \<open>
  The names a directory listing can contain: not empty, without a slash, and neither
  of the two special entries, which \<^verbatim>\<open>readdir\<close> leaves out.
\<close>

definition valid_name :: "string \<Rightarrow> bool" where
  "valid_name n = (n \<noteq> [] \<and> CHR ''/'' \<notin> set n \<and> n \<noteq> ''.'' \<and> n \<noteq> ''..'')"

definition valid_listings :: "filesystem \<Rightarrow> bool" where
  "valid_listings fs =
     (\<forall>p entries. readdir fs p = Inr entries \<longrightarrow> (\<forall>e \<in> set entries. valid_name (entry_name e)))"

text \<open>
  \<open>reaches fs cfg dir d rel ns\<close>: starting in directory \<open>dir\<close> at depth \<open>d\<close>, the chain
  of names \<open>ns\<close> leads through directories that are listed, are not ignored and lie
  within the depth bound.
\<close>

fun reaches :: "filesystem \<Rightarrow> config \<Rightarrow> string \<Rightarrow> nat \<Rightarrow> string \<Rightarrow> string list \<Rightarrow> bool" where
  "reaches fs cfg dir d rel [] = (d \<le> maxDepth cfg)"
| "reaches fs cfg dir d rel (n # ns) =
     (d \<le> maxDepth cfg \<and>
      (case readdir fs dir of
         Inl e \<Rightarrow> False
       | Inr entries \<Rightarrow>
           Dirent n True \<in> set entries \<and>
           shouldIgnore n True (path_join rel n) cfg = Inr False \<and>
           reaches fs cfg (path_join dir n) (d + 1) (path_join rel n) ns))"

text \<open>
  The walk in the order of the listings, without the failures: the records of a
  directory are the concatenation, in the order of its listing, of what each entry
  that is not ignored contributes.
\<close>

fun listing_order_walk ::
    "filesystem \<Rightarrow> config \<Rightarrow> nat \<Rightarrow> string \<Rightarrow> string \<Rightarrow> file_record list" where
  "listing_order_walk fs cfg 0 dir rel = []"
| "listing_order_walk fs cfg (Suc levels) dir rel =
     concat (map
       (\<lambda>e. if shouldIgnore (entry_name e) (entry_isDirectory e) (path_join rel (entry_name e)) cfg
                 \<noteq> Inr False then []
             else if entry_isDirectory e then
               listing_order_walk fs cfg levels (path_join dir (entry_name e))
                 (path_join rel (entry_name e))
             else [\<lparr>path = path_join dir (entry_name e),
                    relativePath = path_join rel (entry_name e),
                    stats = (case stat fs (path_join dir (entry_name e)) of
                               Inl err \<Rightarrow> \<lparr>size = 0\<rparr> | Inr st \<Rightarrow> st)\<rparr>])
       (case readdir fs dir of Inl err \<Rightarrow> [] | Inr entries \<Rightarrow> entries))"

text \<open>
  The stacks of segments that normalisation produces: some \<^verbatim>\<open>..\<close> segments, allowed
  only for a relative path, followed by proper names.
\<close>

definition clean_stack :: "bool \<Rightarrow> string list \<Rightarrow> bool" where
  "clean_stack a S = (\<exists>k N. S = replicate k ''..'' @ N \<and> (\<forall>s\<in>set N. valid_name s) \<and> (0 < k \<longrightarrow> a))"

text \<open>A key that is not a valid expression for the engine: \<^verbatim>\<open>new RegExp\<close> throws.\<close>

definition malformed :: "regexp_engine \<Rightarrow> string \<Rightarrow> bool" where
  "malformed engine pattern = (engine pattern = None)"

text \<open>An entry of the description table whose key compiles and matches the path.\<close>

definition key_matches :: "regexp_engine \<Rightarrow> string \<Rightarrow> string \<times> string \<Rightarrow> bool" where
  "key_matches engine relPath entry =
     (case engine (fst entry) of
        None \<Rightarrow> False
      | Some test \<Rightarrow> test relPath)"

text \<open>The configuration without the entries whose keys are not valid expressions.\<close>

definition without_malformed_keys :: "regexp_engine \<Rightarrow> config \<Rightarrow> config" where
  "without_malformed_keys engine cfg =
     cfg\<lparr>filePatternDescriptions :=
           filter (\<lambda>entry. \<not> malformed engine (fst entry)) (filePatternDescriptions cfg)\<rparr>"

text \<open>
  The description of an entry as a function of the tables: for a directory the
  property of \<^verbatim>\<open>directoryDescriptions\<close> under exactly its relative path, own or
  inherited, when that is a non-empty text; for a file the description of the first
  entry of \<^verbatim>\<open>filePatternDescriptions\<close>, in the order of the table, whose key is a
  valid expression that matches the relative path.  The keys that are not valid
  expressions are passed over with one warning each, up to the entry that is chosen.
\<close>

definition description_of :: "regexp_engine \<Rightarrow> config \<Rightarrow> string \<Rightarrow> bool \<Rightarrow> string option" where
  "description_of engine cfg relPath isDirectory =
     (if isDirectory then
        (if truthy (property (directoryDescriptions cfg) relPath)
         then property (directoryDescriptions cfg) relPath else None)
      else map_option snd (find (key_matches engine relPath) (filePatternDescriptions cfg)))"

definition warnings_of :: "regexp_engine \<Rightarrow> config \<Rightarrow> string \<Rightarrow> bool \<Rightarrow> string list" where
  "warnings_of engine cfg relPath isDirectory =
     (if isDirectory then []
      else map (\<lambda>entry. ''Invalid regex pattern: '' @ fst entry)
             (filter (\<lambda>entry. malformed engine (fst entry))
                (takeWhile (\<lambda>entry. \<not> key_matches engine relPath entry)
                   (filePatternDescriptions cfg))))"

text \<open>The elements of a list, the last one marked.\<close>

fun with_last :: "'a list \<Rightarrow> ('a \<times> bool) list" where
  "with_last [] = []"
| "with_last [x] = [(x, True)]"
| "with_last (x # y # ys) = (x, False) # with_last (y # ys)"

text \<open>
  The rendered tree without the failures: for every entry of the sorted listing that
  is not ignored, in that order, one element with the entry's line (prefix, connector,
  name, description, line feed) and the warnings written for it, followed for a
  directory by the elements of its children under the continuation prefix.  The
  connector is chosen as the code chooses it, by the place among all sorted entries.
\<close>

fun rendered_tree ::
    "regexp_engine \<Rightarrow> (string \<Rightarrow> string \<Rightarrow> int) \<Rightarrow> filesystem \<Rightarrow> config \<Rightarrow> nat \<Rightarrow> string
       \<Rightarrow> string \<Rightarrow> string \<Rightarrow> (string \<times> string list) list" where
  "rendered_tree engine localeCompare fs cfg 0 dir prefix rel = []"
| "rendered_tree engine localeCompare fs cfg (Suc levels) dir prefix rel =
     concat (map
       (\<lambda>(e, isLast).
          if shouldIgnore (entry_name e) (entry_isDirectory e) (path_join rel (entry_name e)) cfg
               \<noteq> Inr False then []
          else
            (linePrefix prefix isLast @ entry_name e
               @ description_suffix
                   (if includeDescriptions cfg
                    then description_of engine cfg (path_join rel (entry_name e))
                           (entry_isDirectory e)
                    else None)
               @ newline,
             if includeDescriptions cfg
             then warnings_of engine cfg (path_join rel (entry_name e)) (entry_isDirectory e)
             else [])
            # (if entry_isDirectory e
               then rendered_tree engine localeCompare fs cfg levels
                      (path_join dir (entry_name e)) (childPrefix prefix isLast)
                      (path_join rel (entry_name e))
               else []))
       (with_last (array_sort (compareEntries localeCompare)
          (case readdir fs dir of Inl err \<Rightarrow> [] | Inr entries \<Rightarrow> entries))))"

text \<open>
  The conditions of the environment under which a rendering of so many levels can
  complete: every directory it enters can be listed and no ignore pattern throws.
\<close>

fun renderable :: "filesystem \<Rightarrow> config \<Rightarrow> nat \<Rightarrow> string \<Rightarrow> string \<Rightarrow> bool" where
  "renderable fs cfg 0 dir rel = True"
| "renderable fs cfg (Suc levels) dir rel =
     (case readdir fs dir of
        Inl err \<Rightarrow> False
      | Inr entries \<Rightarrow>
          list_all
            (\<lambda>e. case shouldIgnore (entry_name e) (entry_isDirectory e)
                         (path_join rel (entry_name e)) cfg of
                    Inl err \<Rightarrow> False
                  | Inr ignored \<Rightarrow>
                      ignored \<or> \<not> entry_isDirectory e \<or>
                      renderable fs cfg levels (path_join dir (entry_name e))
                        (path_join rel (entry_name e)))
            entries)"

text \<open>
  The characters, other than the dot and the star, that have a meaning in the pattern
  language of \<^verbatim>\<open>RegExp\<close>.
\<close>

definition regex_special :: "char \<Rightarrow> bool" where
  "regex_special c =
     (c = backslash \<or> c = CHR ''^'' \<or> c = CHR ''$'' \<or> c = CHR ''+'' \<or> c = CHR ''?'' \<or>
      c = CHR ''('' \<or> c = CHR '')'' \<or> c = CHR ''['' \<or> c = CHR '']'' \<or>
      c = CHR ''{'' \<or> c = CHR ''}'' \<or> c = CHR ''|'')"

text \<open>An ignore pattern of ASCII characters without such a character.\<close>

definition glob_pattern :: "string \<Rightarrow> bool" where
  "glob_pattern p = list_all (\<lambda>c. ascii c \<and> \<not> regex_special c) p"

text \<open>
  Matching as the specification words it: the whole candidate has to match, a star
  stands for any substring (here: without a line break) and every other character,
  the dot included, stands for itself.
\<close>

fun glob_match :: "string \<Rightarrow> string \<Rightarrow> bool" where
  "glob_match [] s = (s = [])"
| "glob_match (c # p) s =
     (if c = CHR ''*'' then
        glob_match p s \<or>
        (case s of [] \<Rightarrow> False | x # xs \<Rightarrow> \<not> is_line_terminator x \<and> glob_match (c # p) xs)
      else (case s of [] \<Rightarrow> False | x # xs \<Rightarrow> x = c \<and> glob_match p xs))"

text \<open>The expression one character of such a pattern is compiled to.\<close>

definition glob_term :: "char \<Rightarrow> regex" where
  "glob_term c = (if c = CHR ''*'' then Star AnyChar else Chr c)"

section \<open>Example inputs\<close>

definition example_config :: config where
  "example_config =
     \<lparr>ignore = \<lparr>directories = [''node_modules''], files = [''.DS_Store''], patterns = []\<rparr>,
      maxDepth = 8, includeDescriptions = True,
      directoryDescriptions = [], filePatternDescriptions = []\<rparr>"

text \<open>The example project, each listing in the order of the bytes of the names.\<close>

definition sorted_listing_fs :: filesystem where
  "sorted_listing_fs =
     \<lparr>readdir = (\<lambda>p.
        if p = ''/proj'' then
          Inr [Dirent ''.env.example'' False, Dirent ''node_modules'' True, Dirent ''src'' True]
        else if p = ''/proj/src'' then Inr [Dirent ''index.js'' False, Dirent ''util.js'' False]
        else if p = ''/proj/node_modules'' then Inr [Dirent ''pkg'' True]
        else if p = ''/proj/node_modules/pkg'' then Inr [Dirent ''index.js'' False]
        else Inl ENOENT),
      stat = (\<lambda>p. Inr \<lparr>size = length p\<rparr>)\<rparr>"


definition locked_dir_fs :: filesystem where
  "locked_dir_fs =
     \<lparr>readdir = (\<lambda>p.
        if p = ''/proj'' then Inr [Dirent ''a.txt'' False, Dirent ''locked'' True]
        else if p = ''/proj/locked'' then Inl EACCES
        else Inl ENOENT),
      stat = (\<lambda>p. Inr \<lparr>size = 1\<rparr>)\<rparr>"

definition unreadable_file_fs :: filesystem where
  "unreadable_file_fs =
     \<lparr>readdir = (\<lambda>p.
        if p = ''/proj'' then
          Inr [Dirent ''a.txt'' False, Dirent ''b.txt'' False, Dirent ''c.txt'' False]
        else Inl ENOENT),
      stat = (\<lambda>p. if p = ''/proj/b.txt'' then Inl EACCES else Inr \<lparr>size = 1\<rparr>)\<rparr>"

definition zero_depth_config :: config where
  "zero_depth_config = example_config\<lparr>maxDepth := 0\<rparr>"

definition root_only_fs :: filesystem where
  "root_only_fs =
     \<lparr>readdir = (\<lambda>p.
        if p = ''/proj'' then
          Inr [Dirent ''.env.example'' False, Dirent ''node_modules'' True, Dirent ''src'' True]
        else Inl EACCES),
      stat = (\<lambda>p. Inr \<lparr>size = length p\<rparr>)\<rparr>"

definition file_named_like_directory_fs :: filesystem where
  "file_named_like_directory_fs =
     \<lparr>readdir = (\<lambda>p.
        if p = ''/proj'' then Inr [Dirent ''node_modules'' False]
        else Inl ENOENT),
      stat = (\<lambda>p. Inr \<lparr>size = 1\<rparr>)\<rparr>"

definition log_pattern_config :: config where
  "log_pattern_config =
     \<lparr>ignore = \<lparr>directories = [''node_modules''], files = [''.DS_Store''], patterns = [''*.log'']\<rparr>,
      maxDepth = 8, includeDescriptions = True,
      directoryDescriptions = [], filePatternDescriptions = []\<rparr>"

definition logs_fs :: filesystem where
  "logs_fs =
     \<lparr>readdir = (\<lambda>p.
        if p = ''/proj'' then Inr [Dirent ''a.log'' False, Dirent ''src'' True]
        else if p = ''/proj/src'' then Inr [Dirent ''b.js'' False, Dirent ''c.log'' False]
        else Inl ENOENT),
      stat = (\<lambda>p. Inr \<lparr>size = 1\<rparr>)\<rparr>"

definition ds_store_fs :: filesystem where
  "ds_store_fs =
     \<lparr>readdir = (\<lambda>p.
        if p = ''/proj'' then Inr [Dirent ''.DS_Store'' False, Dirent ''src'' True]
        else if p = ''/proj/src'' then Inr [Dirent ''a.js'' False]
        else Inl ENOENT),
      stat = (\<lambda>p. Inr \<lparr>size = 1\<rparr>)\<rparr>"

definition dir_and_file_fs :: filesystem where
  "dir_and_file_fs =
     \<lparr>readdir = (\<lambda>p.
        if p = ''/proj'' then Inr [Dirent ''b.txt'' False, Dirent ''a'' True]
        else if p = ''/proj/a'' then Inr []
        else Inl ENOENT),
      stat = (\<lambda>p. Inr \<lparr>size = 1\<rparr>)\<rparr>"

text \<open>A collation for the examples: the order of the character codes.\<close>

fun compare_codes :: "string \<Rightarrow> string \<Rightarrow> int" where
  "compare_codes [] [] = 0"
| "compare_codes [] (y # ys) = - 1"
| "compare_codes (x # xs) [] = 1"
| "compare_codes (x # xs) (y # ys) =
     (if (of_char x :: nat) < of_char y then - 1
      else if (of_char y :: nat) < of_char x then 1
      else compare_codes xs ys)"

text \<open>
  An engine for the examples: the modelled fragment of the pattern language.  It is
  exact for the keys inside the fragment and ASCII paths, which is all the examples use.
\<close>

definition fragment_engine :: regexp_engine where
  "fragment_engine pattern =
     (case RegExp_new pattern of
        Inl e \<Rightarrow> None
      | Inr regex \<Rightarrow> Some (search regex True))"

definition described_config :: config where
  "described_config =
     \<lparr>ignore = \<lparr>directories = [''node_modules''], files = [''.DS_Store''], patterns = []\<rparr>,
      maxDepth = 8, includeDescriptions = True,
      directoryDescriptions = [(''src'', ''Sources'')],
      filePatternDescriptions = [(''('', ''never''), (''js$'', ''JavaScript''), (''s$'', ''late'')]\<rparr>"

text \<open>A project with a directory named like a member every object inherits.\<close>

definition constructor_dir_fs :: filesystem where
  "constructor_dir_fs =
     \<lparr>readdir = (\<lambda>p.
        if p = ''/proj'' then Inr [Dirent ''constructor'' True, Dirent ''src'' True]
        else if p = ''/proj/constructor'' then Inr []
        else if p = ''/proj/src'' then Inr [Dirent ''a.js'' False]
        else Inl ENOENT),
      stat = (\<lambda>p. Inr \<lparr>size = 1\<rparr>)\<rparr>"

definition unclosed_group_config :: config where
  "unclosed_group_config =
     \<lparr>ignore = \<lparr>directories = [''node_modules''], files = [''.DS_Store''], patterns = [''(tmp'']\<rparr>,
      maxDepth = 8, includeDescriptions = True,
      directoryDescriptions = [], filePatternDescriptions = []\<rparr>"

definition alternation_config :: config where
  "alternation_config =
     \<lparr>ignore = \<lparr>directories = [], files = [], patterns = [''a|b'']\<rparr>,
      maxDepth = 8, includeDescriptions = True,
      directoryDescriptions = [], filePatternDescriptions = []\<rparr>"

definition star_config :: config where
  "star_config =
     \<lparr>ignore = \<lparr>directories = [], files = [], patterns = [''*'']\<rparr>,
      maxDepth = 8, includeDescriptions = True,
      directoryDescriptions = [], filePatternDescriptions = []\<rparr>"

definition log_literal_config :: config where
  "log_literal_config =
     \<lparr>ignore = \<lparr>directories = [], files = [], patterns = [''log'']\<rparr>,
      maxDepth = 8, includeDescriptions = True,
      directoryDescriptions = [], filePatternDescriptions = []\<rparr>"

section \<open>The loop of the flat-list walk\<close>

declare getAllFiles.simps [simp del]

lemma getAllFiles_beyond: "maxDepth cfg < d \<Longrightarrow> getAllFiles fs cfg dir d rel = Inr []"
  by (simp add: getAllFiles.simps)

lemma loop_acc:
  "getAllFiles_loop fs cfg dir d rel es results =
     (case getAllFiles_loop fs cfg dir d rel es [] of
        Inl e \<Rightarrow> Inl e
      | Inr rs \<Rightarrow> Inr (results @ rs))"
proof (induction es arbitrary: results)
  case Nil
  show ?case by simp
next
  case (Cons e es)
  show ?case
  proof (cases "getAllFiles_loop fs cfg dir d rel es []")
    case (Inl err)
    have "\<And>r. getAllFiles_loop fs cfg dir d rel es r = Inl err"
      using Cons.IH Inl by simp
    then show ?thesis by (simp split: sum.splits)
  next
    case (Inr rs)
    have "\<And>r. getAllFiles_loop fs cfg dir d rel es r = Inr (r @ rs)"
      using Cons.IH Inr by simp
    then show ?thesis by (simp split: sum.splits)
  qed
qed

lemma loop_Cons:
  "getAllFiles_loop fs cfg dir d rel (e # es) results =
     (case getAllFiles_loop fs cfg dir d rel [e] [] of
        Inl err \<Rightarrow> Inl err
      | Inr xs \<Rightarrow> getAllFiles_loop fs cfg dir d rel es (results @ xs))"
  by (simp split: sum.splits)

lemma loop_fails:
  assumes "e \<in> set es" "getAllFiles_loop fs cfg dir d rel [e] [] = Inl err"
  shows "\<exists>err'. getAllFiles_loop fs cfg dir d rel es results = Inl err'"
  using assms(1)
proof (induction es arbitrary: results)
  case Nil
  then show ?case by simp
next
  case (Cons x xs)
  show ?case
  proof (cases "getAllFiles_loop fs cfg dir d rel [x] []")
    case (Inl a)
    then show ?thesis by (subst loop_Cons) simp
  next
    case (Inr b)
    then have "x \<noteq> e" using assms(2) by auto
    then have "e \<in> set xs" using Cons.prems by simp
    from Cons.IH[OF this] Inr show ?thesis by (subst loop_Cons) simp
  qed
qed

lemma reaches_depth: "reaches fs cfg dir d rel ns \<Longrightarrow> d + length ns \<le> maxDepth cfg"
  by (induction ns arbitrary: dir d rel) (fastforce split: sum.splits)+

lemma walk_fails_below:
  assumes "reaches fs cfg dir d rel ns"
      and "getAllFiles fs cfg (foldl path_join dir ns) (d + length ns) (foldl path_join rel ns)
             = Inl err"
  shows "\<exists>err'. getAllFiles fs cfg dir d rel = Inl err'"
  using assms
proof (induction ns arbitrary: dir d rel)
  case Nil
  then show ?case by simp
next
  case (Cons n ns)
  from Cons.prems(1) obtain entries where
    d: "d \<le> maxDepth cfg" and rd: "readdir fs dir = Inr entries"
    and mem: "Dirent n True \<in> set entries"
    and ign: "shouldIgnore n True (path_join rel n) cfg = Inr False"
    and rest: "reaches fs cfg (path_join dir n) (d + 1) (path_join rel n) ns"
    by (auto split: sum.splits)
  from Cons.prems(2) have
    "getAllFiles fs cfg (foldl path_join (path_join dir n) ns) (d + 1 + length ns)
       (foldl path_join (path_join rel n) ns) = Inl err"
    by simp
  from Cons.IH[OF rest this] obtain e1 where
    sub: "getAllFiles fs cfg (path_join dir n) (d + 1) (path_join rel n) = Inl e1" by blast
  have "getAllFiles_loop fs cfg dir d rel [Dirent n True] [] = Inl e1"
    using ign sub by simp
  from loop_fails[OF mem this] obtain e2 where
    "getAllFiles_loop fs cfg dir d rel entries [] = Inl e2" by blast
  then show ?case using d rd by (simp add: getAllFiles.simps)
qed

section \<open>Failures of the file system during the walk\<close>

text \<open>
  C2, as the claim states it, fails: with a root that holds the file \<^verbatim>\<open>a.txt\<close> and a
  directory \<^verbatim>\<open>locked\<close> whose listing is refused, the walk is rejected with the error
  of the listing and returns no record, not even the one of \<^verbatim>\<open>a.txt\<close>.
\<close>

theorem directory_failure_counterexample:
  "getAllFiles locked_dir_fs example_config ''/proj'' 0 [] = Inl (SystemError EACCES)"
  by code_simp

text \<open>
  C2, amended: when the listing of a directory fails, and that directory is the root or
  is reached from it through directories that are not ignored and lie within the depth
  bound, the whole walk fails with an error and returns no records.
\<close>

theorem directory_failure_aborts_walk:
  assumes "reaches fs cfg rootDir 0 [] ns"
      and "readdir fs (foldl path_join rootDir ns) = Inl e"
  shows "\<exists>err. getAllFiles fs cfg rootDir 0 [] = Inl err"
proof -
  have "length ns \<le> maxDepth cfg" using reaches_depth[OF assms(1)] by simp
  then have "getAllFiles fs cfg (foldl path_join rootDir ns) (0 + length ns)
               (foldl path_join [] ns) = Inl (SystemError e)"
    using assms(2) by (simp add: getAllFiles.simps)
  from walk_fails_below[OF assms(1) this] show ?thesis .
qed

theorem directory_failure_aborts_walk_witness:
  "reaches locked_dir_fs example_config ''/proj'' 0 [] [''locked''] \<and>
   readdir locked_dir_fs (foldl path_join ''/proj'' [''locked'']) = Inl EACCES \<and>
   (\<exists>err. getAllFiles locked_dir_fs example_config ''/proj'' 0 [] = Inl err)"
proof -
  have r: "reaches locked_dir_fs example_config ''/proj'' 0 [] [''locked'']" by code_simp
  have l: "readdir locked_dir_fs (foldl path_join ''/proj'' [''locked'']) = Inl EACCES"
    by code_simp
  show ?thesis using r l directory_failure_aborts_walk[OF r l] by blast
qed

text \<open>
  C3, as the claim states it, fails: with a root that holds \<^verbatim>\<open>a.txt\<close>, \<^verbatim>\<open>b.txt\<close> and
  \<^verbatim>\<open>c.txt\<close>, where only the metadata of \<^verbatim>\<open>b.txt\<close> cannot be read, the walk is rejected
  with that error; the records of the two other files are not returned.
\<close>

theorem stat_failure_counterexample:
  "getAllFiles unreadable_file_fs example_config ''/proj'' 0 [] = Inl (SystemError EACCES)"
  by code_simp

text \<open>
  C3, amended: when the metadata of a file cannot be read, and the file is not ignored
  and lies in the root or in a directory reached from it, the whole walk fails with an
  error and returns no records.
\<close>

theorem stat_failure_aborts_walk:
  assumes "reaches fs cfg rootDir 0 [] ns"
      and "readdir fs (foldl path_join rootDir ns) = Inr entries"
      and "Dirent n False \<in> set entries"
      and "shouldIgnore n False (path_join (foldl path_join [] ns) n) cfg = Inr False"
      and "stat fs (path_join (foldl path_join rootDir ns) n) = Inl e"
  shows "\<exists>err. getAllFiles fs cfg rootDir 0 [] = Inl err"
proof -
  let ?dir = "foldl path_join rootDir ns" and ?rel = "foldl path_join [] ns"
  have d: "length ns \<le> maxDepth cfg" using reaches_depth[OF assms(1)] by simp
  have "getAllFiles_loop fs cfg ?dir (length ns) ?rel [Dirent n False] [] = Inl (SystemError e)"
    using assms(4,5) by simp
  from loop_fails[OF assms(3) this] obtain e2 where
    "getAllFiles_loop fs cfg ?dir (length ns) ?rel entries [] = Inl e2" by blast
  then have "getAllFiles fs cfg ?dir (0 + length ns) ?rel = Inl e2"
    using d assms(2) by (simp add: getAllFiles.simps)
  from walk_fails_below[OF assms(1) this] show ?thesis .
qed

theorem stat_failure_aborts_walk_witness:
  "reaches unreadable_file_fs example_config ''/proj'' 0 [] [] \<and>
   readdir unreadable_file_fs (foldl path_join ''/proj'' []) =
     Inr [Dirent ''a.txt'' False, Dirent ''b.txt'' False, Dirent ''c.txt'' False] \<and>
   shouldIgnore ''b.txt'' False (path_join (foldl path_join [] []) ''b.txt'') example_config
     = Inr False \<and>
   stat unreadable_file_fs (path_join (foldl path_join ''/proj'' []) ''b.txt'') = Inl EACCES \<and>
   (\<exists>err. getAllFiles unreadable_file_fs example_config ''/proj'' 0 [] = Inl err)"
proof -
  have r: "reaches unreadable_file_fs example_config ''/proj'' 0 [] []" by code_simp
  have l: "readdir unreadable_file_fs (foldl path_join ''/proj'' []) =
     Inr [Dirent ''a.txt'' False, Dirent ''b.txt'' False, Dirent ''c.txt'' False]" by code_simp
  have m: "Dirent ''b.txt'' False
             \<in> set [Dirent ''a.txt'' False, Dirent ''b.txt'' False, Dirent ''c.txt'' False]"
    by simp
  have i: "shouldIgnore ''b.txt'' False (path_join (foldl path_join [] []) ''b.txt'')
             example_config = Inr False"
    by code_simp
  have s: "stat unreadable_file_fs (path_join (foldl path_join ''/proj'' []) ''b.txt'')
             = Inl EACCES"
    by code_simp
  show ?thesis using r l i s stat_failure_aborts_walk[OF r l m i s] by blast
qed

section \<open>The order of the flat list\<close>

lemma loop_listing_order:
  assumes contrib_def: "contrib =
       (\<lambda>e. if shouldIgnore (entry_name e) (entry_isDirectory e) (path_join rel (entry_name e)) cfg
                 \<noteq> Inr False then []
             else if entry_isDirectory e then
               listing_order_walk fs cfg levels (path_join dir (entry_name e))
                 (path_join rel (entry_name e))
             else [\<lparr>path = path_join dir (entry_name e),
                    relativePath = path_join rel (entry_name e),
                    stats = (case stat fs (path_join dir (entry_name e)) of
                               Inl err \<Rightarrow> \<lparr>size = 0\<rparr> | Inr st \<Rightarrow> st)\<rparr>])"
      and sub: "\<And>e sub. e \<in> set es \<Longrightarrow>
            getAllFiles fs cfg (path_join dir (entry_name e)) (d + 1)
              (path_join rel (entry_name e)) = Inr sub \<Longrightarrow>
            sub = listing_order_walk fs cfg levels (path_join dir (entry_name e))
                    (path_join rel (entry_name e))"
      and "getAllFiles_loop fs cfg dir d rel es results = Inr rs"
  shows "rs = results @ concat (map contrib es)"
  using sub assms(3)
proof (induction es arbitrary: results)
  case Nil
  then show ?case by simp
next
  case (Cons e es)
  have IH: "\<And>results. getAllFiles_loop fs cfg dir d rel es results = Inr rs
              \<Longrightarrow> rs = results @ concat (map contrib es)"
    using Cons.IH Cons.prems(1) by simp
  let ?n = "entry_name e"
  show ?case
  proof (cases "shouldIgnore ?n (entry_isDirectory e) (path_join rel ?n) cfg")
    case (Inl err)
    then show ?thesis using Cons.prems(2) by simp
  next
    case (Inr ignored)
    show ?thesis
    proof (cases ignored)
      case True
      then have "contrib e = []" using Inr by (simp add: contrib_def)
      moreover have "getAllFiles_loop fs cfg dir d rel es results = Inr rs"
        using Cons.prems(2) Inr True by simp
      ultimately show ?thesis using IH by simp
    next
      case False
      have notign: "shouldIgnore ?n (entry_isDirectory e) (path_join rel ?n) cfg = Inr False"
        using Inr False by simp
      show ?thesis
      proof (cases "entry_isDirectory e")
        case True
        from Cons.prems(2) notign True obtain subFiles where
          s: "getAllFiles fs cfg (path_join dir ?n) (d + 1) (path_join rel ?n) = Inr subFiles"
          and l: "getAllFiles_loop fs cfg dir d rel es (results @ subFiles) = Inr rs"
          by (auto split: sum.splits)
        have "subFiles = listing_order_walk fs cfg levels (path_join dir ?n) (path_join rel ?n)"
          using Cons.prems(1)[OF _ s] by simp
        then have "contrib e = subFiles" using notign True by (simp add: contrib_def)
        then show ?thesis using IH[OF l] by simp
      next
        case False
        from Cons.prems(2) notign False obtain st where
          s: "stat fs (path_join dir ?n) = Inr st"
          and l: "getAllFiles_loop fs cfg dir d rel es
                    (results @ [\<lparr>path = path_join dir ?n, relativePath = path_join rel ?n,
                                 stats = st\<rparr>]) = Inr rs"
          by (auto split: sum.splits)
        have "contrib e = [\<lparr>path = path_join dir ?n, relativePath = path_join rel ?n, stats = st\<rparr>]"
          using notign False s by (simp add: contrib_def)
        then show ?thesis using IH[OF l] by simp
      qed
    qed
  qed
qed

lemma walk_listing_order:
  assumes "getAllFiles fs cfg dir d rel = Inr rs"
  shows "rs = listing_order_walk fs cfg (maxDepth cfg + 1 - d) dir rel"
proof -
  have "\<And>levels. maxDepth cfg + 1 - d = levels \<Longrightarrow> getAllFiles fs cfg dir d rel = Inr rs
          \<Longrightarrow> rs = listing_order_walk fs cfg levels dir rel"
  proof -
    fix levels
    show "maxDepth cfg + 1 - d = levels \<Longrightarrow> getAllFiles fs cfg dir d rel = Inr rs
          \<Longrightarrow> rs = listing_order_walk fs cfg levels dir rel"
    proof (induction levels arbitrary: dir d rel rs)
      case 0
      then show ?case by (simp add: getAllFiles.simps split: if_splits)
    next
      case (Suc l)
      then have d: "d \<le> maxDepth cfg" and l: "maxDepth cfg + 1 - (d + 1) = l" by auto
      from Suc.prems(2) d obtain es where
        rd: "readdir fs dir = Inr es" and lp: "getAllFiles_loop fs cfg dir d rel es [] = Inr rs"
        by (auto simp: getAllFiles.simps split: sum.splits)
      have "rs = [] @ concat (map
       (\<lambda>e. if shouldIgnore (entry_name e) (entry_isDirectory e) (path_join rel (entry_name e)) cfg
                 \<noteq> Inr False then []
             else if entry_isDirectory e then
               listing_order_walk fs cfg l (path_join dir (entry_name e))
                 (path_join rel (entry_name e))
             else [\<lparr>path = path_join dir (entry_name e),
                    relativePath = path_join rel (entry_name e),
                    stats = (case stat fs (path_join dir (entry_name e)) of
                               Inl err \<Rightarrow> \<lparr>size = 0\<rparr> | Inr st \<Rightarrow> st)\<rparr>]) es)"
        using loop_listing_order[OF refl _ lp, of l] Suc.IH[OF l] by simp
      then show ?case using rd by simp
    qed
  qed
  then show ?thesis using assms by blast
qed




section \<open>The depth bound\<close>

lemma last_level_loop:
  assumes "maxDepth cfg \<le> d"
      and "\<forall>e\<in>set es. \<exists>ignored. shouldIgnore (entry_name e) (entry_isDirectory e)
              (path_join rel (entry_name e)) cfg = Inr ignored"
      and "\<forall>e\<in>set es. \<not> entry_isDirectory e \<longrightarrow>
              shouldIgnore (entry_name e) False (path_join rel (entry_name e)) cfg = Inr False \<longrightarrow>
              (\<exists>st. stat fs (path_join dir (entry_name e)) = Inr st)"
  shows "getAllFiles_loop fs cfg dir d rel es results =
           Inr (results @ map
             (\<lambda>e. \<lparr>path = path_join dir (entry_name e),
                   relativePath = path_join rel (entry_name e),
                   stats = (case stat fs (path_join dir (entry_name e)) of
                              Inl err \<Rightarrow> \<lparr>size = 0\<rparr> | Inr st \<Rightarrow> st)\<rparr>)
             (filter (\<lambda>e. \<not> entry_isDirectory e \<and>
                          shouldIgnore (entry_name e) False (path_join rel (entry_name e)) cfg
                            = Inr False) es))"
  using assms(2,3)
proof (induction es arbitrary: results)
  case Nil
  show ?case by simp
next
  case (Cons e es)
  from Cons.prems(1) obtain ignored where
    ign: "shouldIgnore (entry_name e) (entry_isDirectory e) (path_join rel (entry_name e)) cfg
            = Inr ignored" by auto
  have IH: "\<And>results. getAllFiles_loop fs cfg dir d rel es results =
           Inr (results @ map
             (\<lambda>e. \<lparr>path = path_join dir (entry_name e),
                   relativePath = path_join rel (entry_name e),
                   stats = (case stat fs (path_join dir (entry_name e)) of
                              Inl err \<Rightarrow> \<lparr>size = 0\<rparr> | Inr st \<Rightarrow> st)\<rparr>)
             (filter (\<lambda>e. \<not> entry_isDirectory e \<and>
                          shouldIgnore (entry_name e) False (path_join rel (entry_name e)) cfg
                            = Inr False) es))"
    using Cons.IH Cons.prems by simp
  have sub: "getAllFiles fs cfg (path_join dir (entry_name e)) (d + 1)
               (path_join rel (entry_name e)) = Inr []"
    using assms(1) by (simp add: getAllFiles_beyond)
  show ?case
  proof (cases "entry_isDirectory e")
    case True
    then show ?thesis using ign sub IH by simp
  next
    case False
    show ?thesis
    proof (cases ignored)
      case True
      then show ?thesis using ign False IH by simp
    next
      case notign: False
      then obtain st where "stat fs (path_join dir (entry_name e)) = Inr st"
        using Cons.prems(2) ign False by auto
      then show ?thesis using ign False notign IH by simp
    qed
  qed
qed

lemma last_level_independent:
  assumes "maxDepth cfg \<le> d" and "stat fs' = stat fs"
  shows "getAllFiles_loop fs' cfg dir d rel es results = getAllFiles_loop fs cfg dir d rel es results"
proof (induction es arbitrary: results)
  case Nil
  show ?case by simp
next
  case (Cons e es)
  have "\<And>f. getAllFiles f cfg (path_join dir (entry_name e)) (d + 1)
               (path_join rel (entry_name e)) = Inr []"
    using assms(1) by (simp add: getAllFiles_beyond)
  then show ?case using Cons.IH assms(2) by (simp split: sum.splits)
qed

text \<open>
  C6: beyond the depth bound a call returns the empty list without touching the file
  system, and in the loop of its parent a subdirectory at the bound adds nothing to the
  records collected so far.  With \<open>maxDepth = 0\<close>, when the root can be listed, no
  pattern throws and the metadata of the files can be read, the walk returns exactly
  the records of the files of the root that are not ignored, in the order of the
  listing; and it is the same on every file system that agrees on the listing of the
  root and on the metadata, whatever the listings of the other directories are.
\<close>

theorem depth_cutoff:
  "(maxDepth cfg < currentDepth \<longrightarrow> getAllFiles fs cfg dir currentDepth relPath = Inr []) \<and>
   (maxDepth cfg \<le> currentDepth \<and> entry_isDirectory entry \<and>
    shouldIgnore (entry_name entry) True (path_join relPath (entry_name entry)) cfg = Inr False
    \<longrightarrow> getAllFiles_loop fs cfg dir currentDepth relPath (entry # rest) results
          = getAllFiles_loop fs cfg dir currentDepth relPath rest results) \<and>
   (maxDepth cfg = 0 \<and> readdir fs rootDir = Inr entries \<and>
    (\<forall>e\<in>set entries. \<exists>ignored. shouldIgnore (entry_name e) (entry_isDirectory e)
        (path_join [] (entry_name e)) cfg = Inr ignored) \<and>
    (\<forall>e\<in>set entries. \<not> entry_isDirectory e \<longrightarrow>
        shouldIgnore (entry_name e) False (path_join [] (entry_name e)) cfg = Inr False \<longrightarrow>
        (\<exists>st. stat fs (path_join rootDir (entry_name e)) = Inr st))
    \<longrightarrow> getAllFiles fs cfg rootDir 0 [] =
          Inr (map (\<lambda>e. \<lparr>path = path_join rootDir (entry_name e),
                         relativePath = path_join [] (entry_name e),
                         stats = (case stat fs (path_join rootDir (entry_name e)) of
                                    Inl err \<Rightarrow> \<lparr>size = 0\<rparr> | Inr st \<Rightarrow> st)\<rparr>)
                 (filter (\<lambda>e. \<not> entry_isDirectory e \<and>
                     shouldIgnore (entry_name e) False (path_join [] (entry_name e)) cfg
                       = Inr False) entries))) \<and>
   (maxDepth cfg = 0 \<and> readdir fs' rootDir = readdir fs rootDir \<and> stat fs' = stat fs
    \<longrightarrow> getAllFiles fs' cfg rootDir 0 [] = getAllFiles fs cfg rootDir 0 [])"
proof (intro conjI impI)
  assume "maxDepth cfg < currentDepth"
  then show "getAllFiles fs cfg dir currentDepth relPath = Inr []" by (rule getAllFiles_beyond)
next
  assume "maxDepth cfg \<le> currentDepth \<and> entry_isDirectory entry \<and>
    shouldIgnore (entry_name entry) True (path_join relPath (entry_name entry)) cfg = Inr False"
  then show "getAllFiles_loop fs cfg dir currentDepth relPath (entry # rest) results
          = getAllFiles_loop fs cfg dir currentDepth relPath rest results"
    by (simp add: getAllFiles_beyond)
next
  assume a: "maxDepth cfg = 0 \<and> readdir fs rootDir = Inr entries \<and>
    (\<forall>e\<in>set entries. \<exists>ignored. shouldIgnore (entry_name e) (entry_isDirectory e)
        (path_join [] (entry_name e)) cfg = Inr ignored) \<and>
    (\<forall>e\<in>set entries. \<not> entry_isDirectory e \<longrightarrow>
        shouldIgnore (entry_name e) False (path_join [] (entry_name e)) cfg = Inr False \<longrightarrow>
        (\<exists>st. stat fs (path_join rootDir (entry_name e)) = Inr st))"
  then have "maxDepth cfg \<le> 0" by simp
  from last_level_loop[OF this, of entries "[]" fs rootDir "[]"] a
  show "getAllFiles fs cfg rootDir 0 [] =
          Inr (map (\<lambda>e. \<lparr>path = path_join rootDir (entry_name e),
                         relativePath = path_join [] (entry_name e),
                         stats = (case stat fs (path_join rootDir (entry_name e)) of
                                    Inl err \<Rightarrow> \<lparr>size = 0\<rparr> | Inr st \<Rightarrow> st)\<rparr>)
                 (filter (\<lambda>e. \<not> entry_isDirectory e \<and>
                     shouldIgnore (entry_name e) False (path_join [] (entry_name e)) cfg
                       = Inr False) entries))"
    by (simp add: getAllFiles.simps)
next
  assume a: "maxDepth cfg = 0 \<and> readdir fs' rootDir = readdir fs rootDir \<and> stat fs' = stat fs"
  then have "maxDepth cfg \<le> 0" "stat fs' = stat fs" by simp_all
  from last_level_independent[OF this] a
  show "getAllFiles fs' cfg rootDir 0 [] = getAllFiles fs cfg rootDir 0 []"
    by (simp add: getAllFiles.simps split: sum.splits)
qed

theorem depth_cutoff_witness:
  "getAllFiles sorted_listing_fs zero_depth_config ''/proj/src'' 1 ''src'' = Inr [] \<and>
   getAllFiles_loop sorted_listing_fs zero_depth_config ''/proj'' 0 []
     [Dirent ''src'' True] [] = getAllFiles_loop sorted_listing_fs zero_depth_config ''/proj'' 0 [] [] [] \<and>
   getAllFiles sorted_listing_fs zero_depth_config ''/proj'' 0 [] =
     Inr [\<lparr>path = ''/proj/.env.example'', relativePath = ''.env.example'',
           stats = \<lparr>size = 18\<rparr>\<rparr>] \<and>
   getAllFiles root_only_fs zero_depth_config ''/proj'' 0 [] =
     getAllFiles sorted_listing_fs zero_depth_config ''/proj'' 0 []"
proof -
  let ?es = "[Dirent ''.env.example'' False, Dirent ''node_modules'' True, Dirent ''src'' True]"
  note D = depth_cutoff[where cfg = zero_depth_config and currentDepth = 1
      and fs = sorted_listing_fs and dir = "''/proj/src''" and relPath = "''src''"]
  note L = depth_cutoff[where cfg = zero_depth_config and currentDepth = 0
      and fs = sorted_listing_fs and dir = "''/proj''" and relPath = "[]"
      and entry = "Dirent ''src'' True" and rest = "[]" and results = "[]"
      and rootDir = "''/proj''" and entries = ?es and fs' = root_only_fs]
  have m: "maxDepth zero_depth_config = 0"
    by (simp add: zero_depth_config_def)
  have r: "readdir sorted_listing_fs ''/proj'' = Inr ?es"
    by (simp add: sorted_listing_fs_def)
  have r': "readdir root_only_fs ''/proj'' = readdir sorted_listing_fs ''/proj''"
    by (simp add: sorted_listing_fs_def root_only_fs_def)
  have s': "stat root_only_fs = stat sorted_listing_fs"
    by (simp add: sorted_listing_fs_def root_only_fs_def)
  have i: "\<forall>e\<in>set ?es. \<exists>ignored. shouldIgnore (entry_name e) (entry_isDirectory e)
        (path_join [] (entry_name e)) zero_depth_config = Inr ignored"
    by (auto simp: shouldIgnore_def zero_depth_config_def example_config_def)
  have st: "\<forall>e\<in>set ?es. \<not> entry_isDirectory e \<longrightarrow>
        shouldIgnore (entry_name e) False (path_join [] (entry_name e)) zero_depth_config = Inr False \<longrightarrow>
        (\<exists>st. stat sorted_listing_fs (path_join ''/proj'' (entry_name e)) = Inr st)"
    by (simp add: sorted_listing_fs_def)
  have i2: "shouldIgnore (entry_name (Dirent ''src'' True)) True (path_join [] (entry_name (Dirent ''src'' True))) zero_depth_config = Inr False"
    by (simp add: shouldIgnore_def zero_depth_config_def example_config_def)
  have e: "map (\<lambda>e. \<lparr>path = path_join ''/proj'' (entry_name e),
                         relativePath = path_join [] (entry_name e),
                         stats = (case stat sorted_listing_fs (path_join ''/proj'' (entry_name e)) of
                                    Inl err \<Rightarrow> \<lparr>size = 0\<rparr> | Inr st \<Rightarrow> st)\<rparr>)
                 (filter (\<lambda>e. \<not> entry_isDirectory e \<and>
                     shouldIgnore (entry_name e) False (path_join [] (entry_name e)) zero_depth_config
                       = Inr False) ?es) =
       [\<lparr>path = ''/proj/.env.example'', relativePath = ''.env.example'',
           stats = \<lparr>size = 18\<rparr>\<rparr>]"
    by code_simp
  have c1: "getAllFiles sorted_listing_fs zero_depth_config ''/proj/src'' 1 ''src'' = Inr []"
    using D[THEN conjunct1] m by simp
  have c2: "getAllFiles_loop sorted_listing_fs zero_depth_config ''/proj'' 0 []
     [Dirent ''src'' True] [] = getAllFiles_loop sorted_listing_fs zero_depth_config ''/proj'' 0 [] [] []"
    using L[THEN conjunct2, THEN conjunct1] m i2 by simp
  have c3: "getAllFiles sorted_listing_fs zero_depth_config ''/proj'' 0 [] =
     Inr [\<lparr>path = ''/proj/.env.example'', relativePath = ''.env.example'',
           stats = \<lparr>size = 18\<rparr>\<rparr>]"
    using L[THEN conjunct2, THEN conjunct2, THEN conjunct1] m r i st unfolding e by blast
  have c4: "getAllFiles root_only_fs zero_depth_config ''/proj'' 0 [] =
     getAllFiles sorted_listing_fs zero_depth_config ''/proj'' 0 []"
    using L[THEN conjunct2, THEN conjunct2, THEN conjunct2] m r' s' by blast
  show ?thesis using c1 c2 c3 c4 by blast
qed

section \<open>Facts about \<^verbatim>\<open>path.join\<close>\<close>

lemma split_on_nonempty: "split_on c s \<noteq> []"
  by (induction s) (auto split: list.splits)

lemma split_on_no_sep: "c \<notin> set s \<Longrightarrow> split_on c s = [s]"
  by (induction s) auto

lemma split_on_append: "split_on c (x @ c # y) = split_on c x @ split_on c y"
  by (induction x) (auto split: list.splits simp: split_on_nonempty)

lemma split_on_free: "s \<in> set (split_on c x) \<Longrightarrow> c \<notin> set s"
  by (induction x arbitrary: s) (auto split: if_splits list.splits)

lemma join_with_Cons: "join_with sep (x # xs) = x @ (if xs = [] then [] else sep @ join_with sep xs)"
  by (cases xs) auto

lemma join_with_snoc: "S \<noteq> [] \<Longrightarrow> join_with sep (S @ [n]) = join_with sep S @ sep @ n"
  by (induction sep S rule: join_with.induct) auto

lemma split_join:
  "S \<noteq> [] \<Longrightarrow> \<forall>s\<in>set S. c \<notin> set s \<Longrightarrow> split_on c (join_with [c] S) = S"
proof (induction S rule: rev_induct)
  case Nil
  then show ?case by simp
next
  case (snoc n T)
  show ?case
  proof (cases "T = []")
    case True
    then show ?thesis using snoc.prems by (simp add: split_on_no_sep)
  next
    case False
    then show ?thesis using snoc by (simp add: join_with_snoc split_on_append split_on_no_sep)
  qed
qed

lemma step_valid: "valid_name n \<Longrightarrow> normalize_step a S n = S @ [n]"
  by (auto simp: normalize_step_def valid_name_def)

lemma foldl_step_valid:
  "\<forall>n\<in>set N. valid_name n \<Longrightarrow> foldl (normalize_step a) T N = T @ N"
  by (induction N arbitrary: T) (auto simp: step_valid)

lemma clean_Nil: "clean_stack a []"
  unfolding clean_stack_def by (rule exI[of _ 0]) simp

lemma valid_nameD: "valid_name s \<Longrightarrow> s \<noteq> [] \<and> CHR ''/'' \<notin> set s"
  by (simp add: valid_name_def)

lemma clean_elem: "clean_stack a S \<Longrightarrow> s \<in> set S \<Longrightarrow> s \<noteq> [] \<and> CHR ''/'' \<notin> set s"
proof -
  assume "clean_stack a S" and s: "s \<in> set S"
  then obtain k N where S: "S = replicate k ''..'' @ N"
    and N: "\<forall>s\<in>set N. valid_name s"
    unfolding clean_stack_def by blast
  from s S have "s = ''..'' \<or> s \<in> set N" by auto
  then show ?thesis
  proof
    assume "s = ''..''"
    then show ?thesis by simp
  next
    assume "s \<in> set N"
    then show ?thesis using N valid_nameD by blast
  qed
qed

lemma clean_step:
  assumes "clean_stack a S" "CHR ''/'' \<notin> set seg"
  shows "clean_stack a (normalize_step a S seg)"
proof -
  from assms(1) obtain k N where S: "S = replicate k ''..'' @ N"
    and N: "\<forall>s\<in>set N. valid_name s" and k: "0 < k \<longrightarrow> a"
    by (auto simp: clean_stack_def)
  consider "seg = [] \<or> seg = ''.''" | "seg = ''..''" | "valid_name seg"
    using assms(2) by (auto simp: valid_name_def)
  then show ?thesis
  proof cases
    case 1
    then show ?thesis using assms(1) by (auto simp: normalize_step_def)
  next
    case 2
    show ?thesis
    proof (cases "N = []")
      case True
      have "normalize_step a S seg = (if a then replicate (Suc k) ''..'' else S)"
        using 2 True S by (auto simp: normalize_step_def replicate_append_same)
      then show ?thesis
        using True S k unfolding clean_stack_def
        by (cases a) (auto intro: exI[of _ "Suc k"] exI[of _ k])
    next
      case False
      then have "last S \<noteq> ''..''" using S N by (auto simp: valid_name_def)
      then have "normalize_step a S seg = replicate k ''..'' @ butlast N"
        using 2 False S by (auto simp: normalize_step_def butlast_append)
      moreover have "\<forall>s\<in>set (butlast N). valid_name s" using N by (auto dest: in_set_butlastD)
      ultimately show ?thesis using k unfolding clean_stack_def by blast
    qed
  next
    case 3
    then have "normalize_step a S seg = replicate k ''..'' @ (N @ [seg])"
      using S by (simp add: step_valid)
    moreover have "\<forall>s\<in>set (N @ [seg]). valid_name s" using N 3 by auto
    ultimately show ?thesis using k unfolding clean_stack_def by blast
  qed
qed

lemma clean_foldl:
  "clean_stack a S \<Longrightarrow> \<forall>s\<in>set segs. CHR ''/'' \<notin> set s \<Longrightarrow>
   clean_stack a (foldl (normalize_step a) S segs)"
  by (induction segs arbitrary: S) (auto simp: clean_step)

lemma clean_normalizeSegments: "clean_stack a (normalizeSegments p a)"
  unfolding normalizeSegments_def
  by (rule clean_foldl[OF clean_Nil]) (auto dest: split_on_free)

lemma foldl_dots:
  "a \<Longrightarrow> foldl (normalize_step a) (replicate j ''..'') (replicate k ''..'') = replicate (j + k) ''..''"
proof (induction k arbitrary: j)
  case 0
  then show ?case by simp
next
  case (Suc k)
  have "normalize_step a (replicate j ''..'') ''..'' = replicate (Suc j) ''..''"
    using Suc.prems by (auto simp: normalize_step_def replicate_append_same)
  then show ?case using Suc.IH[OF Suc.prems, of "Suc j"] by simp
qed

lemma foldl_clean_id: "clean_stack a S \<Longrightarrow> foldl (normalize_step a) [] S = S"
proof -
  assume "clean_stack a S"
  then obtain k N where S: "S = replicate k ''..'' @ N"
    and N: "\<forall>s\<in>set N. valid_name s" and k: "0 < k \<longrightarrow> a"
    by (auto simp: clean_stack_def)
  have "foldl (normalize_step a) [] (replicate k ''..'') = replicate k ''..''"
  proof (cases k)
    case 0
    then show ?thesis by simp
  next
    case (Suc m)
    then have a using k by simp
    from foldl_dots[OF this, of 0 k] show ?thesis by simp
  qed
  then show ?thesis using S N by (simp add: foldl_step_valid)
qed

lemma join_with_nonempty:
  "S \<noteq> [] \<Longrightarrow> hd S \<noteq> [] \<Longrightarrow> join_with sep S \<noteq> [] \<and> hd (join_with sep S) = hd (hd S)"
  by (cases S) (auto simp: join_with_Cons)

lemma clean_join:
  assumes "clean_stack a S" "S \<noteq> []"
  shows "join_with ''/'' S \<noteq> []" "hd (join_with ''/'' S) \<noteq> CHR ''/''"
proof -
  have "hd S \<in> set S" using assms(2) by simp
  from clean_elem[OF assms(1) this] have h: "hd S \<noteq> []" "CHR ''/'' \<notin> set (hd S)" by simp_all
  from join_with_nonempty[OF assms(2) h(1)] show "join_with ''/'' S \<noteq> []" by simp
  have "hd (hd S) \<in> set (hd S)" using h(1) by simp
  then have "hd (hd S) \<noteq> CHR ''/''" using h(2) by metis
  then show "hd (join_with ''/'' S) \<noteq> CHR ''/''"
    using join_with_nonempty[OF assms(2) h(1)] by simp
qed

lemma normalize_decomp:
  assumes "p \<noteq> []"
  shows "path_normalize p =
     (if normalizeSegments p (hd p \<noteq> CHR ''/'') = [] then
        (if hd p = CHR ''/'' then ''/'' else if last p = CHR ''/'' then ''./'' else ''.'')
      else (if hd p = CHR ''/'' then ''/'' else []) @
           join_with ''/'' (normalizeSegments p (hd p \<noteq> CHR ''/'')) @
           (if last p = CHR ''/'' then ''/'' else []))"
proof -
  let ?S = "normalizeSegments p (hd p \<noteq> CHR ''/'')"
  have "join_with ''/'' ?S = [] \<longleftrightarrow> ?S = []"
    using clean_join(1)[OF clean_normalizeSegments, of p "hd p \<noteq> CHR ''/''"] by auto
  then show ?thesis using assms
    by (simp add: path_normalize_def normalizeString_def Let_def)
qed

lemma segments_special:
  "normalizeSegments ''/'' False = []"
  "normalizeSegments ''./'' True = []"
  "normalizeSegments ''.'' True = []"
  by (simp_all add: normalizeSegments_def normalize_step_def)

lemma segments_of_clean:
  assumes "clean_stack a S" "S \<noteq> []"
      and that: "pre = [] \<or> pre = ''/''" "post = [] \<or> post = ''/''"
  shows "normalizeSegments (pre @ join_with ''/'' S @ post) a = S"
proof -
  have free: "\<forall>s\<in>set S. CHR ''/'' \<notin> set s" using clean_elem[OF assms(1)] by blast
  have sp: "split_on CHR ''/'' (join_with ''/'' S) = S"
    using split_join[OF assms(2) free] by simp
  have sp2: "split_on CHR ''/'' (join_with ''/'' S @ post) = S @ (if post = [] then [] else [[]])"
    using that(2) sp split_on_append[of "CHR ''/''" "join_with ''/'' S" "[]"] by auto
  have sp3: "split_on CHR ''/'' (pre @ join_with ''/'' S @ post)
               = (if pre = [] then [] else [[]]) @ S @ (if post = [] then [] else [[]])"
    using that(1) sp2 by auto
  have e: "normalize_step a T [] = T" for T by (simp add: normalize_step_def)
  show ?thesis
    unfolding normalizeSegments_def sp3
    by (simp add: e foldl_clean_id[OF assms(1)])
qed

lemma normalize_fix:
  assumes "p \<noteq> []"
  shows "path_normalize p \<noteq> []"
    and "(hd (path_normalize p) = CHR ''/'') = (hd p = CHR ''/'')"
    and "normalizeSegments (path_normalize p) (hd p \<noteq> CHR ''/'') = normalizeSegments p (hd p \<noteq> CHR ''/'')"
proof -
  let ?a = "hd p \<noteq> CHR ''/''"
  let ?S = "normalizeSegments p ?a"
  have cl: "clean_stack ?a ?S" by (rule clean_normalizeSegments)
  note D = normalize_decomp[OF assms]
  show "path_normalize p \<noteq> []"
  proof (cases "?S = []")
    case True
    then show ?thesis using D by (auto split: if_splits)
  next
    case False
    from clean_join(1)[OF cl False] show ?thesis using D False by simp
  qed
  show "(hd (path_normalize p) = CHR ''/'') = (hd p = CHR ''/'')"
  proof (cases "?S = []")
    case True
    then show ?thesis using D by (auto split: if_splits)
  next
    case False
    from clean_join[OF cl False] show ?thesis using D False by (auto simp: hd_append)
  qed
  show "normalizeSegments (path_normalize p) ?a = ?S"
  proof (cases "?S = []")
    case True
    then show ?thesis using D by (auto simp: segments_special split: if_splits)
  next
    case False
    have "path_normalize p = (if hd p = CHR ''/'' then ''/'' else []) @ join_with ''/'' ?S @
           (if last p = CHR ''/'' then ''/'' else [])"
      using D False by simp
    then show ?thesis
      using segments_of_clean[OF cl False, of "if hd p = CHR ''/'' then ''/'' else []"
               "if last p = CHR ''/'' then ''/'' else []"]
      by (simp split: if_splits)
  qed
qed

lemma normalize_join_valid:
  assumes "x \<noteq> []" "valid_name n"
  shows "path_normalize (x @ CHR ''/'' # n) =
           (if hd x = CHR ''/'' then ''/'' else []) @
           join_with ''/'' (normalizeSegments x (hd x \<noteq> CHR ''/'') @ [n])"
proof -
  let ?p = "x @ CHR ''/'' # n"
  let ?a = "hd x \<noteq> CHR ''/''"
  from valid_nameD[OF assms(2)] have n: "n \<noteq> []" "CHR ''/'' \<notin> set n" by simp_all
  have hd: "hd ?p = hd x" using assms(1) by simp
  have "last ?p = last n" using n(1) by simp
  moreover have "last n \<in> set n" using n(1) by simp
  ultimately have last: "last ?p \<noteq> CHR ''/''" using n(2) by metis
  have seg: "normalizeSegments ?p ?a = normalizeSegments x ?a @ [n]"
    unfolding normalizeSegments_def
    by (simp add: split_on_append split_on_no_sep[OF n(2)] step_valid[OF assms(2)])
  have "p \<noteq> [] \<Longrightarrow> True" for p :: string by simp
  from normalize_decomp[of ?p] show ?thesis
    unfolding hd using seg last by simp
qed

lemma normalize_normalize_join:
  assumes "x \<noteq> []" "valid_name n"
  shows "path_normalize (path_normalize x @ CHR ''/'' # n) = path_normalize (x @ CHR ''/'' # n)"
  using normalize_join_valid[OF normalize_fix(1)[OF assms(1)] assms(2)]
        normalize_join_valid[OF assms]
        normalize_fix(2,3)[OF assms(1)]
  by simp

lemma normalize_valid: "valid_name n \<Longrightarrow> path_normalize n = n"
proof -
  assume v: "valid_name n"
  from valid_nameD[OF v] have n: "n \<noteq> []" "CHR ''/'' \<notin> set n" by simp_all
  have "hd n \<in> set n" "last n \<in> set n" using n(1) by simp_all
  then have h: "hd n \<noteq> CHR ''/''" "last n \<noteq> CHR ''/''" using n(2) by metis+
  have "normalizeSegments n True = [n]"
    unfolding normalizeSegments_def by (simp add: split_on_no_sep[OF n(2)] step_valid[OF v])
  then show ?thesis using normalize_decomp[OF n(1)] h by simp
qed

lemma path_join_nonempty: "path_join a b \<noteq> []"
  by (auto simp: path_join_def Let_def normalize_fix(1))

lemma path_join_Nil_valid: "valid_name n \<Longrightarrow> path_join [] n = n"
  using valid_nameD[of n] by (simp add: path_join_def normalize_valid)

lemma path_join_slash: "x \<noteq> [] \<Longrightarrow> n \<noteq> [] \<Longrightarrow> path_join x n = path_normalize (x @ CHR ''/'' # n)"
  by (simp add: path_join_def)

lemma join_valid_names:
  assumes "names \<noteq> []" "\<forall>s\<in>set names. valid_name s"
  shows "join_with ''/'' names \<noteq> []"
    and "hd (join_with ''/'' names) \<noteq> CHR ''/''"
    and "normalizeSegments (join_with ''/'' names) True = names"
proof -
  have cl: "clean_stack True names"
    unfolding clean_stack_def using assms(2) by (intro exI[of _ 0] exI[of _ names]) simp
  from clean_join[OF cl assms(1)] show "join_with ''/'' names \<noteq> []"
    and "hd (join_with ''/'' names) \<noteq> CHR ''/''" by simp_all
  from segments_of_clean[OF cl assms(1), of "[]" "[]"]
  show "normalizeSegments (join_with ''/'' names) True = names" by simp
qed

lemma path_join_rel:
  assumes "names \<noteq> []" "\<forall>s\<in>set names. valid_name s" "valid_name n"
  shows "path_join (join_with ''/'' names) n = join_with ''/'' (names @ [n])"
proof -
  note J = join_valid_names[OF assms(1,2)]
  have "n \<noteq> []" using valid_nameD[OF assms(3)] by simp
  then have "path_join (join_with ''/'' names) n = path_normalize (join_with ''/'' names @ CHR ''/'' # n)"
    using J(1) by (simp add: path_join_slash)
  also have "\<dots> = join_with ''/'' (names @ [n])"
    using normalize_join_valid[OF J(1) assms(3)] J(2,3) by simp
  finally show ?thesis .
qed

lemma foldl_path_join_rel:
  "\<forall>s\<in>set ns. valid_name s \<Longrightarrow> foldl path_join [] ns = join_with ''/'' ns"
proof (induction ns rule: rev_induct)
  case Nil
  show ?case by simp
next
  case (snoc n ms)
  show ?case
  proof (cases "ms = []")
    case True
    then show ?thesis using snoc.prems by (simp add: path_join_Nil_valid)
  next
    case False
    then show ?thesis using snoc by (simp add: path_join_rel)
  qed
qed

lemma path_join_assoc:
  assumes "\<forall>s\<in>set names. valid_name s" "valid_name n"
  shows "path_join (path_join x (join_with ''/'' names)) n
           = path_join x (path_join (join_with ''/'' names) n)"
proof -
  from valid_nameD[OF assms(2)] have n: "n \<noteq> []" by simp
  show ?thesis
  proof (cases "names = []")
    case True
    show ?thesis
    proof (cases "x = []")
      case True
      have "path_join ''.'' n = n"
        using normalize_join_valid[of "''.''" n] assms(2) n
        by (simp add: path_join_slash segments_special)
      then show ?thesis using \<open>names = []\<close> True assms(2)
        by (simp add: path_join_Nil_valid) (simp add: path_join_def)
    next
      case False
      have "path_join x [] = path_normalize x" using False by (simp add: path_join_def)
      then show ?thesis using \<open>names = []\<close> False n assms(2) normalize_fix(1)[OF False]
        by (simp add: path_join_Nil_valid path_join_slash normalize_normalize_join)
    qed
  next
    case False
    note J = join_valid_names[OF False assms(1)]
    let ?R = "join_with ''/'' names"
    have R: "path_join ?R n = ?R @ CHR ''/'' # n"
      using path_join_rel[OF False assms] False by (simp add: join_with_snoc)
    show ?thesis
    proof (cases "x = []")
      case True
      have "path_join [] ?R = path_normalize ?R" using J(1) by (simp add: path_join_def)
      moreover have "path_join [] (?R @ CHR ''/'' # n) = path_normalize (?R @ CHR ''/'' # n)"
        by (simp add: path_join_def)
      ultimately show ?thesis using True R J(1) n normalize_fix(1)[OF J(1)]
        by (simp add: path_join_slash normalize_normalize_join[OF J(1) assms(2)])
    next
      case x: False
      let ?y = "x @ CHR ''/'' # ?R"
      have y: "?y \<noteq> []" by simp
      have "path_join x ?R = path_normalize ?y" using x J(1) by (simp add: path_join_slash)
      moreover have "path_join x (?R @ CHR ''/'' # n) = path_normalize (?y @ CHR ''/'' # n)"
        using x by (simp add: path_join_slash)
      ultimately show ?thesis using R n normalize_fix(1)[OF y]
        by (simp add: path_join_slash normalize_normalize_join[OF y assms(2)])
    qed
  qed
qed

lemma foldl_path_join_root:
  "ns \<noteq> [] \<Longrightarrow> \<forall>s\<in>set ns. valid_name s \<Longrightarrow>
   foldl path_join x ns = path_join x (join_with ''/'' ns)"
proof (induction ns rule: rev_induct)
  case Nil
  then show ?case by simp
next
  case (snoc n ms)
  show ?case
  proof (cases "ms = []")
    case True
    then show ?thesis by simp
  next
    case False
    have v: "\<forall>s\<in>set ms. valid_name s" "valid_name n" using snoc.prems by simp_all
    have "foldl path_join x (ms @ [n]) = path_join (path_join x (join_with ''/'' ms)) n"
      using snoc.IH[OF False v(1)] by simp
    also have "\<dots> = path_join x (path_join (join_with ''/'' ms) n)"
      by (rule path_join_assoc[OF v])
    also have "\<dots> = path_join x (join_with ''/'' (ms @ [n]))"
      using path_join_rel[OF False v] by simp
    finally show ?thesis .
  qed
qed

section \<open>Where a record comes from\<close>

lemma listing_walk_provenance:
  "levels = maxDepth cfg + 1 - d \<Longrightarrow> r \<in> set (listing_order_walk fs cfg levels dir rel) \<Longrightarrow>
   \<exists>ns n entries.
     reaches fs cfg dir d rel ns \<and>
     readdir fs (foldl path_join dir ns) = Inr entries \<and>
     Dirent n False \<in> set entries \<and>
     shouldIgnore n False (path_join (foldl path_join rel ns) n) cfg = Inr False \<and>
     path r = path_join (foldl path_join dir ns) n \<and>
     relativePath r = path_join (foldl path_join rel ns) n"
proof (induction levels arbitrary: dir d rel)
  case 0
  then show ?case by simp
next
  case (Suc l)
  from Suc.prems(1) have d: "d \<le> maxDepth cfg" and l: "l = maxDepth cfg + 1 - (d + 1)" by auto
  from Suc.prems(2) obtain es where rd: "readdir fs dir = Inr es"
    by (cases "readdir fs dir") auto
  from Suc.prems(2) rd obtain e where e: "e \<in> set es"
    and ign: "shouldIgnore (entry_name e) (entry_isDirectory e) (path_join rel (entry_name e)) cfg
                = Inr False"
    and r: "r \<in> set (if entry_isDirectory e then
               listing_order_walk fs cfg l (path_join dir (entry_name e))
                 (path_join rel (entry_name e))
             else [\<lparr>path = path_join dir (entry_name e),
                    relativePath = path_join rel (entry_name e),
                    stats = (case stat fs (path_join dir (entry_name e)) of
                               Inl err \<Rightarrow> \<lparr>size = 0\<rparr> | Inr st \<Rightarrow> st)\<rparr>])"
    by (auto split: if_splits)
  show ?case
  proof (cases "entry_isDirectory e")
    case True
    then have ed: "Dirent (entry_name e) True = e" by (cases e) simp
    from r True have "r \<in> set (listing_order_walk fs cfg l (path_join dir (entry_name e))
                 (path_join rel (entry_name e)))" by simp
    from Suc.IH[OF l this] obtain ns n entries where
      A: "reaches fs cfg (path_join dir (entry_name e)) (d + 1) (path_join rel (entry_name e)) ns"
         "readdir fs (foldl path_join (path_join dir (entry_name e)) ns) = Inr entries"
         "Dirent n False \<in> set entries"
         "shouldIgnore n False (path_join (foldl path_join (path_join rel (entry_name e)) ns) n) cfg
            = Inr False"
         "path r = path_join (foldl path_join (path_join dir (entry_name e)) ns) n"
         "relativePath r = path_join (foldl path_join (path_join rel (entry_name e)) ns) n"
      by blast
    have "reaches fs cfg dir d rel (entry_name e # ns)"
      using d rd e ed ign True A(1) by simp
    then show ?thesis using A(2-6)
      by (intro exI[of _ "entry_name e # ns"] exI[of _ n] exI[of _ entries]) simp
  next
    case False
    then have ed: "Dirent (entry_name e) False = e" by (cases e) simp
    have "reaches fs cfg dir d rel []" using d by simp
    then show ?thesis using r False rd e ed ign
      by (intro exI[of _ "[]"] exI[of _ "entry_name e"] exI[of _ es]) simp
  qed
qed

lemma walk_provenance:
  assumes "getAllFiles fs cfg dir d rel = Inr rs" "r \<in> set rs"
  shows "\<exists>ns n entries.
     reaches fs cfg dir d rel ns \<and>
     readdir fs (foldl path_join dir ns) = Inr entries \<and>
     Dirent n False \<in> set entries \<and>
     shouldIgnore n False (path_join (foldl path_join rel ns) n) cfg = Inr False \<and>
     path r = path_join (foldl path_join dir ns) n \<and>
     relativePath r = path_join (foldl path_join rel ns) n"
  using listing_walk_provenance[OF refl, of r fs cfg d dir rel] walk_listing_order[OF assms(1)] assms(2)
  by simp

lemma reaches_valid:
  "valid_listings fs \<Longrightarrow> reaches fs cfg dir d rel ns \<Longrightarrow> \<forall>s\<in>set ns. valid_name s"
proof (induction ns arbitrary: dir d rel)
  case Nil
  show ?case by simp
next
  case (Cons n ns)
  from Cons.prems(2) obtain entries where rd: "readdir fs dir = Inr entries"
    and mem: "Dirent n True \<in> set entries"
    and rest: "reaches fs cfg (path_join dir n) (d + 1) (path_join rel n) ns"
    by (auto split: sum.splits)
  have "valid_name n" using Cons.prems(1) rd mem unfolding valid_listings_def by force
  then show ?case using Cons.IH[OF Cons.prems(1) rest] by simp
qed

lemma valid_sorted_listing_fs: "valid_listings sorted_listing_fs"
  unfolding valid_listings_def sorted_listing_fs_def
  by (auto simp: valid_name_def split: if_splits)

lemma valid_logs_fs: "valid_listings logs_fs"
  unfolding valid_listings_def logs_fs_def
  by (auto simp: valid_name_def split: if_splits)

text \<open>
  C9: when the listings contain proper entry names only, every record of a successful
  walk from the root has as its \<^verbatim>\<open>path\<close> the root joined with its \<^verbatim>\<open>relativePath\<close>;
  both fields are built from the same chain of entry names, joined one by one to the
  root and to the empty path, and the relative path is that chain joined by slashes.
\<close>

theorem path_is_root_joined_with_relativePath:
  assumes "valid_listings fs"
      and "getAllFiles fs cfg rootDir 0 [] = Inr rs"
      and "r \<in> set rs"
  shows "path r = path_join rootDir (relativePath r) \<and>
         (\<exists>names. names \<noteq> [] \<and> path r = foldl path_join rootDir names \<and>
                   relativePath r = foldl path_join [] names \<and>
                   relativePath r = join_with ''/'' names)"
proof -
  from walk_provenance[OF assms(2,3)] obtain ns n entries where
    A: "reaches fs cfg rootDir 0 [] ns"
       "readdir fs (foldl path_join rootDir ns) = Inr entries"
       "Dirent n False \<in> set entries"
       "path r = path_join (foldl path_join rootDir ns) n"
       "relativePath r = path_join (foldl path_join [] ns) n"
    by blast
  have vns: "\<forall>s\<in>set ns. valid_name s" by (rule reaches_valid[OF assms(1) A(1)])
  have vn: "valid_name n" using assms(1) A(2,3) unfolding valid_listings_def by force
  let ?names = "ns @ [n]"
  have v: "\<forall>s\<in>set ?names. valid_name s" using vns vn by simp
  have p: "path r = foldl path_join rootDir ?names" using A(4) by simp
  have q: "relativePath r = foldl path_join [] ?names" using A(5) by simp
  have j: "relativePath r = join_with ''/'' ?names"
    using q foldl_path_join_rel[OF v] by simp
  have "path r = path_join rootDir (relativePath r)"
    using p j foldl_path_join_root[OF _ v, of rootDir] by simp
  then show ?thesis using p q j by blast
qed

theorem path_is_root_joined_with_relativePath_witness:
  "valid_listings sorted_listing_fs \<and>
   getAllFiles sorted_listing_fs example_config ''/proj'' 0 [] =
     Inr [\<lparr>path = ''/proj/.env.example'', relativePath = ''.env.example'',
           stats = \<lparr>size = 18\<rparr>\<rparr>,
          \<lparr>path = ''/proj/src/index.js'', relativePath = ''src/index.js'',
           stats = \<lparr>size = 18\<rparr>\<rparr>,
          \<lparr>path = ''/proj/src/util.js'', relativePath = ''src/util.js'',
           stats = \<lparr>size = 17\<rparr>\<rparr>] \<and>
   ''/proj/src/index.js'' = path_join ''/proj'' ''src/index.js''"
proof -
  let ?r = "\<lparr>path = ''/proj/src/index.js'', relativePath = ''src/index.js'',
             stats = \<lparr>size = 18\<rparr>\<rparr>"
  have g: "getAllFiles sorted_listing_fs example_config ''/proj'' 0 [] =
     Inr [\<lparr>path = ''/proj/.env.example'', relativePath = ''.env.example'',
           stats = \<lparr>size = 18\<rparr>\<rparr>, ?r,
          \<lparr>path = ''/proj/src/util.js'', relativePath = ''src/util.js'',
           stats = \<lparr>size = 17\<rparr>\<rparr>]"
    by code_simp
  have m: "?r \<in> set [\<lparr>path = ''/proj/.env.example'', relativePath = ''.env.example'',
           stats = \<lparr>size = 18\<rparr>\<rparr>, ?r,
          \<lparr>path = ''/proj/src/util.js'', relativePath = ''src/util.js'',
           stats = \<lparr>size = 17\<rparr>\<rparr>]" by simp
  from path_is_root_joined_with_relativePath[OF valid_sorted_listing_fs g m]
  have "path ?r = path_join ''/proj'' (relativePath ?r)" by (rule conjunct1)
  then have "''/proj/src/index.js'' = path_join ''/proj'' ''src/index.js''" by simp
  then show ?thesis using valid_sorted_listing_fs g by blast
qed

lemma some_pattern_False:
  "some_pattern nm rel ps = Inr False \<Longrightarrow> p \<in> set ps \<Longrightarrow>
   \<exists>regex. RegExp_new (pattern_source p) = Inr regex \<and>
           RegExp_test regex nm = Inr False \<and> RegExp_test regex rel = Inr False"
proof (induction ps)
  case Nil
  then show ?case by simp
next
  case (Cons q qs)
  from Cons.prems(1) obtain regex where
    c: "RegExp_new (pattern_source q) = Inr regex"
    and t1: "RegExp_test regex nm = Inr False"
    and t2: "RegExp_test regex rel = Inr False"
    and rest: "some_pattern nm rel qs = Inr False"
    by (auto split: sum.splits bool.splits)
  show ?case
  proof (cases "p = q")
    case True
    then show ?thesis using c t1 t2 by simp
  next
    case False
    then have "p \<in> set qs" using Cons.prems(2) by simp
    from Cons.IH[OF rest this] show ?thesis .
  qed
qed

lemma shouldIgnore_False:
  assumes "shouldIgnore nm isDirectory rel cfg = Inr False"
  shows "nm \<notin> set (if isDirectory then directories (ignore cfg) else files (ignore cfg))"
    and "p \<in> set (patterns (ignore cfg)) \<Longrightarrow>
         \<exists>regex. RegExp_new (pattern_source p) = Inr regex \<and>
           RegExp_test regex nm = Inr False \<and> RegExp_test regex rel = Inr False"
proof -
  show "nm \<notin> set (if isDirectory then directories (ignore cfg) else files (ignore cfg))"
    using assms by (auto simp: shouldIgnore_def Let_def split: if_splits)
  have "some_pattern nm rel (patterns (ignore cfg)) = Inr False"
    using assms by (auto simp: shouldIgnore_def Let_def split: if_splits)
  then show "p \<in> set (patterns (ignore cfg)) \<Longrightarrow>
         \<exists>regex. RegExp_new (pattern_source p) = Inr regex \<and>
           RegExp_test regex nm = Inr False \<and> RegExp_test regex rel = Inr False"
    by (rule some_pattern_False)
qed

lemma reaches_not_ignored:
  "reaches fs cfg dir d rel ns \<Longrightarrow> i < length ns \<Longrightarrow>
   shouldIgnore (ns ! i) True (foldl path_join rel (take (Suc i) ns)) cfg = Inr False"
proof (induction ns arbitrary: dir d rel i)
  case Nil
  then show ?case by simp
next
  case (Cons n ns)
  from Cons.prems(1) have ign: "shouldIgnore n True (path_join rel n) cfg = Inr False"
    and rest: "reaches fs cfg (path_join dir n) (d + 1) (path_join rel n) ns"
    by (auto split: sum.splits)
  show ?case
  proof (cases i)
    case 0
    then show ?thesis using ign by simp
  next
    case (Suc j)
    then have "j < length ns" using Cons.prems(2) by simp
    from Cons.IH[OF rest this] show ?thesis using Suc by simp
  qed
qed

text \<open>
  C5, as the claim states it, fails: directory names are compared with directories
  only.  A regular file named \<^verbatim>\<open>node_modules\<close> in the root is returned although
  \<^verbatim>\<open>node_modules\<close> is an ignored directory name, so its relative path has a segment
  that equals an ignored directory name.
\<close>

theorem ignored_segment_counterexample:
  "getAllFiles file_named_like_directory_fs example_config ''/proj'' 0 [] =
     Inr [\<lparr>path = ''/proj/node_modules'', relativePath = ''node_modules'',
           stats = \<lparr>size = 1\<rparr>\<rparr>] \<and>
   split_on CHR ''/'' ''node_modules'' = [''node_modules''] \<and>
   ''node_modules'' \<in> set (directories (ignore example_config))"
  by code_simp

text \<open>
  C5, amended: in every record of a successful walk, no segment of \<^verbatim>\<open>relativePath\<close>
  other than the last one equals an ignored directory name, the last segment does not
  equal an ignored file name, and every ignore pattern compiles and matches neither a
  segment nor the relative path up to and including that segment (for the last
  segment, the full relative path).
\<close>

theorem returned_paths_not_ignored:
  assumes "valid_listings fs"
      and "getAllFiles fs cfg rootDir 0 [] = Inr rs"
      and "r \<in> set rs"
      and "segs = split_on CHR ''/'' (relativePath r)"
  shows "segs \<noteq> [] \<and>
         (\<forall>s\<in>set (butlast segs). s \<notin> set (directories (ignore cfg))) \<and>
         last segs \<notin> set (files (ignore cfg)) \<and>
         (\<forall>p\<in>set (patterns (ignore cfg)).
            \<exists>regex. RegExp_new (pattern_source p) = Inr regex \<and>
              (\<forall>i<length segs.
                 RegExp_test regex (segs ! i) = Inr False \<and>
                 RegExp_test regex (join_with ''/'' (take (Suc i) segs)) = Inr False))"
proof -
  from walk_provenance[OF assms(2,3)] obtain ns n entries where
    A: "reaches fs cfg rootDir 0 [] ns"
       "readdir fs (foldl path_join rootDir ns) = Inr entries"
       "Dirent n False \<in> set entries"
       "shouldIgnore n False (path_join (foldl path_join [] ns) n) cfg = Inr False"
       "relativePath r = path_join (foldl path_join [] ns) n"
    by blast
  have vns: "\<forall>s\<in>set ns. valid_name s" by (rule reaches_valid[OF assms(1) A(1)])
  have vn: "valid_name n" using assms(1) A(2,3) unfolding valid_listings_def by force
  have v: "\<forall>s\<in>set (ns @ [n]). valid_name s" using vns vn by simp
  have rel: "relativePath r = join_with ''/'' (ns @ [n])"
    using A(5) foldl_path_join_rel[OF v] by simp
  have free: "\<forall>s\<in>set (ns @ [n]). CHR ''/'' \<notin> set s" using v valid_nameD by blast
  have segs: "segs = ns @ [n]"
    using assms(4) rel split_join[OF _ free] by simp
  have pre: "foldl path_join [] (take k ns) = join_with ''/'' (take k ns)" for k
    by (rule foldl_path_join_rel) (use vns in \<open>auto dest: in_set_takeD\<close>)
  have dirs: "shouldIgnore (ns ! i) True (join_with ''/'' (take (Suc i) ns)) cfg = Inr False"
    if "i < length ns" for i
    using reaches_not_ignored[OF A(1) that] pre by simp
  have fl: "shouldIgnore n False (join_with ''/'' (ns @ [n])) cfg = Inr False"
    using A(4,5) rel by simp
  have 1: "segs \<noteq> []" using segs by simp
  have 2: "\<forall>s\<in>set (butlast segs). s \<notin> set (directories (ignore cfg))"
  proof
    fix s assume "s \<in> set (butlast segs)"
    then have "s \<in> set ns" using segs by simp
    then obtain i where i: "i < length ns" "s = ns ! i" by (auto simp: in_set_conv_nth)
    from shouldIgnore_False(1)[OF dirs[OF i(1)]] i(2)
    show "s \<notin> set (directories (ignore cfg))" by simp
  qed
  have 3: "last segs \<notin> set (files (ignore cfg))"
    using shouldIgnore_False(1)[OF fl] segs by simp
  have 4: "\<forall>p\<in>set (patterns (ignore cfg)).
            \<exists>regex. RegExp_new (pattern_source p) = Inr regex \<and>
              (\<forall>i<length segs.
                 RegExp_test regex (segs ! i) = Inr False \<and>
                 RegExp_test regex (join_with ''/'' (take (Suc i) segs)) = Inr False)"
  proof
    fix p assume p: "p \<in> set (patterns (ignore cfg))"
    from shouldIgnore_False(2)[OF fl p] obtain regex where
      c: "RegExp_new (pattern_source p) = Inr regex"
      and f: "RegExp_test regex n = Inr False"
             "RegExp_test regex (join_with ''/'' (ns @ [n])) = Inr False"
      by blast
    have "RegExp_test regex (segs ! i) = Inr False \<and>
          RegExp_test regex (join_with ''/'' (take (Suc i) segs)) = Inr False"
      if i: "i < length segs" for i
    proof (cases "i < length ns")
      case True
      from shouldIgnore_False(2)[OF dirs[OF True] p] c
      have "RegExp_test regex (ns ! i) = Inr False \<and>
            RegExp_test regex (join_with ''/'' (take (Suc i) ns)) = Inr False"
        by auto
      then show ?thesis using True segs by (simp add: nth_append)
    next
      case False
      then have "i = length ns" using i segs by simp
      then show ?thesis using f segs by simp
    qed
    then show "\<exists>regex. RegExp_new (pattern_source p) = Inr regex \<and>
              (\<forall>i<length segs.
                 RegExp_test regex (segs ! i) = Inr False \<and>
                 RegExp_test regex (join_with ''/'' (take (Suc i) segs)) = Inr False)"
      using c by blast
  qed
  show ?thesis using 1 2 3 4 by blast
qed

theorem returned_paths_not_ignored_witness:
  "valid_listings logs_fs \<and>
   getAllFiles logs_fs log_pattern_config ''/proj'' 0 [] =
     Inr [\<lparr>path = ''/proj/src/b.js'', relativePath = ''src/b.js'', stats = \<lparr>size = 1\<rparr>\<rparr>] \<and>
   split_on CHR ''/'' ''src/b.js'' = [''src'', ''b.js''] \<and>
   last [''src'', ''b.js''] \<notin> set (files (ignore log_pattern_config))"
proof -
  let ?r = "\<lparr>path = ''/proj/src/b.js'', relativePath = ''src/b.js'', stats = \<lparr>size = 1\<rparr>\<rparr>"
  have g: "getAllFiles logs_fs log_pattern_config ''/proj'' 0 [] = Inr [?r]"
    by code_simp
  have m: "?r \<in> set [?r]" by simp
  have s: "split_on CHR ''/'' ''src/b.js'' = [''src'', ''b.js'']" by code_simp
  have s': "[''src'', ''b.js''] = split_on CHR ''/'' (relativePath ?r)"
    unfolding s[symmetric] by simp
  from returned_paths_not_ignored[OF valid_logs_fs g m s']
  have "last [''src'', ''b.js''] \<notin> set (files (ignore log_pattern_config))" by blast
  then show ?thesis using valid_logs_fs g s by blast
qed

section \<open>The tree rendering\<close>

declare generateTree.simps [simp del]

subsection \<open>The description of an entry\<close>

text \<open>
  The lookup of a description returns the description of the tables and writes the
  warnings of the keys it passed over, for every engine, table and path; in particular
  a key that is not a valid expression never ends the lookup.
\<close>

lemma with_last_Cons: "with_last (x # xs) = (x, xs = []) # with_last xs"
  by (cases xs) simp_all

lemma patterns_described:
  "getDescription_patterns engine relPath table console =
     (map_option snd (find (key_matches engine relPath) table),
      console @ map (\<lambda>entry. ''Invalid regex pattern: '' @ fst entry)
                  (filter (\<lambda>entry. malformed engine (fst entry))
                     (takeWhile (\<lambda>entry. \<not> key_matches engine relPath entry) table)))"
proof (induction table arbitrary: console)
  case Nil
  show ?case by simp
next
  case (Cons entry table)
  obtain pattern description where entry: "entry = (pattern, description)" by (cases entry)
  show ?case
  proof (cases "engine pattern")
    case None
    have km: "\<not> key_matches engine relPath entry" using None entry by (simp add: key_matches_def)
    have mf: "malformed engine (fst entry)" using None entry by (simp add: malformed_def)
    show ?thesis using None km mf Cons.IH by (simp add: entry)
  next
    case (Some test)
    have km: "key_matches engine relPath entry = test relPath"
      using Some entry by (simp add: key_matches_def)
    have mf: "\<not> malformed engine (fst entry)" using Some entry by (simp add: malformed_def)
    show ?thesis
    proof (cases "test relPath")
      case True
      then show ?thesis using Some km by (simp add: entry)
    next
      case False
      then show ?thesis using Some km mf Cons.IH by (simp add: entry)
    qed
  qed
qed

lemma getDescription_described:
  "getDescription engine relPath isDirectory cfg console =
     (description_of engine cfg relPath isDirectory,
      console @ warnings_of engine cfg relPath isDirectory)"
  by (simp add: getDescription_def description_of_def warnings_of_def patterns_described)

lemma find_without_malformed:
  "find (key_matches engine relPath) (filter (\<lambda>entry. \<not> malformed engine (fst entry)) table)
     = find (key_matches engine relPath) table"
proof (induction table)
  case Nil
  show ?case by simp
next
  case (Cons entry table)
  have "key_matches engine relPath entry \<Longrightarrow> \<not> malformed engine (fst entry)"
    by (auto simp: key_matches_def malformed_def split: option.splits)
  then show ?case using Cons.IH by auto
qed

lemma description_without_malformed:
  "description_of engine (without_malformed_keys engine cfg) relPath isDirectory
     = description_of engine cfg relPath isDirectory"
  by (simp add: description_of_def without_malformed_keys_def find_without_malformed)

subsection \<open>The rendered text and the warnings\<close>

text \<open>
  When every directory the rendering enters can be listed and no ignore pattern throws,
  \<^verbatim>\<open>generateTree\<close> returns: its text is the concatenation of the lines of
  \<open>rendered_tree\<close>, one for every entry that is not ignored, down to the depth bound,
  and the console receives the warnings of these entries in the same order.
\<close>

lemma set_insert_sorted: "set (insert_sorted cmp x ys) = insert x (set ys)"
  by (induction ys) auto

lemma set_array_sort: "set (array_sort cmp xs) = set xs"
  unfolding array_sort_def by (induction xs) (simp_all add: set_insert_sorted)

lemma tree_loop_rendered:
  assumes item: "item =
       (\<lambda>(e, isLast).
          if shouldIgnore (entry_name e) (entry_isDirectory e) (path_join rel (entry_name e)) cfg
               \<noteq> Inr False then []
          else
            (linePrefix prefix isLast @ entry_name e
               @ description_suffix
                   (if includeDescriptions cfg
                    then description_of engine cfg (path_join rel (entry_name e))
                           (entry_isDirectory e)
                    else None)
               @ newline,
             if includeDescriptions cfg
             then warnings_of engine cfg (path_join rel (entry_name e)) (entry_isDirectory e)
             else [])
            # (if entry_isDirectory e
               then rendered_tree engine lc fs cfg levels
                      (path_join dir (entry_name e)) (childPrefix prefix isLast)
                      (path_join rel (entry_name e))
               else []))"
    and sub: "\<And>e prefix' console'. e \<in> set es \<Longrightarrow>
          renderable fs cfg levels (path_join dir (entry_name e)) (path_join rel (entry_name e)) \<Longrightarrow>
          generateTree engine lc fs cfg (path_join dir (entry_name e)) (d + 1) prefix'
            (path_join rel (entry_name e)) console' =
          (Inr (concat (map fst (rendered_tree engine lc fs cfg levels
                  (path_join dir (entry_name e)) prefix' (path_join rel (entry_name e))))),
           console' @ concat (map snd (rendered_tree engine lc fs cfg levels
                  (path_join dir (entry_name e)) prefix' (path_join rel (entry_name e)))))"
    and ok: "list_all
            (\<lambda>e. case shouldIgnore (entry_name e) (entry_isDirectory e)
                         (path_join rel (entry_name e)) cfg of
                    Inl err \<Rightarrow> False
                  | Inr ignored \<Rightarrow>
                      ignored \<or> \<not> entry_isDirectory e \<or>
                      renderable fs cfg levels (path_join dir (entry_name e))
                        (path_join rel (entry_name e)))
            es"
  shows "generateTree_loop engine lc fs cfg dir d prefix rel es result console =
           (Inr (result @ concat (map fst (concat (map item (with_last es))))),
            console @ concat (map snd (concat (map item (with_last es)))))"
  using sub ok
proof (induction es arbitrary: result console)
  case Nil
  show ?case by simp
next
  case (Cons e es)
  let ?n = "entry_name e"
  let ?r = "path_join rel ?n"
  have IH: "\<And>result console.
         generateTree_loop engine lc fs cfg dir d prefix rel es result console =
           (Inr (result @ concat (map fst (concat (map item (with_last es))))),
            console @ concat (map snd (concat (map item (with_last es)))))"
    using Cons.IH Cons.prems by simp
  from Cons.prems(2) obtain ignored where
    ign: "shouldIgnore ?n (entry_isDirectory e) ?r cfg = Inr ignored"
    and child: "ignored \<or> \<not> entry_isDirectory e \<or> renderable fs cfg levels (path_join dir ?n) ?r"
    by (auto split: sum.splits)
  show ?case
  proof (cases ignored)
    case True
    then have "item (e, es = []) = []" using ign by (simp add: item)
    then show ?thesis using ign True IH by (simp add: with_last_Cons)
  next
    case False
    then have notign: "shouldIgnore ?n (entry_isDirectory e) ?r cfg = Inr False" using ign by simp
    define desc where "desc = (if includeDescriptions cfg
                    then description_of engine cfg ?r (entry_isDirectory e) else None)"
    define warns where "warns = (if includeDescriptions cfg
             then warnings_of engine cfg ?r (entry_isDirectory e) else [])"
    define line where "line = linePrefix prefix (es = []) @ ?n @ description_suffix desc @ newline"
    have call: "(if includeDescriptions cfg
                 then getDescription engine ?r (entry_isDirectory e) cfg console
                 else (None, console)) = (desc, console @ warns)"
      by (simp add: desc_def warns_def getDescription_described)
    show ?thesis
    proof (cases "entry_isDirectory e")
      case isdir: True
      let ?kids = "rendered_tree engine lc fs cfg levels (path_join dir ?n)
                     (childPrefix prefix (es = [])) ?r"
      have rend: "renderable fs cfg levels (path_join dir ?n) ?r" using child False isdir by simp
      have subcall: "generateTree engine lc fs cfg (path_join dir ?n) (d + 1)
              (childPrefix prefix (es = [])) ?r (console @ warns) =
            (Inr (concat (map fst ?kids)), (console @ warns) @ concat (map snd ?kids))"
        by (rule Cons.prems(1)[OF _ rend]) simp
      have it: "item (e, es = []) = (line, warns) # ?kids"
        using notign isdir by (simp add: item line_def desc_def warns_def)
      show ?thesis
        using notign isdir call subcall IH
        by (simp add: with_last_Cons it line_def)
    next
      case notdir: False
      have it: "item (e, es = []) = [(line, warns)]"
        using notign notdir by (simp add: item line_def desc_def warns_def)
      show ?thesis
        using notign notdir call IH
        by (simp add: with_last_Cons it line_def)
    qed
  qed
qed

lemma tree_rendered_aux:
  "levels = maxDepth cfg + 1 - d \<Longrightarrow> renderable fs cfg levels dir rel \<Longrightarrow>
   generateTree engine lc fs cfg dir d prefix rel console =
     (Inr (concat (map fst (rendered_tree engine lc fs cfg levels dir prefix rel))),
      console @ concat (map snd (rendered_tree engine lc fs cfg levels dir prefix rel)))"
proof (induction levels arbitrary: dir d prefix rel console)
  case 0
  then show ?case by (simp add: generateTree.simps)
next
  case (Suc l)
  then have d: "d \<le> maxDepth cfg" and l: "l = maxDepth cfg + 1 - (d + 1)" by auto
  from Suc.prems(2) obtain es where rd: "readdir fs dir = Inr es"
    and ok: "list_all
            (\<lambda>e. case shouldIgnore (entry_name e) (entry_isDirectory e)
                         (path_join rel (entry_name e)) cfg of
                    Inl err \<Rightarrow> False
                  | Inr ignored \<Rightarrow>
                      ignored \<or> \<not> entry_isDirectory e \<or>
                      renderable fs cfg l (path_join dir (entry_name e))
                        (path_join rel (entry_name e)))
            es"
    by (auto split: sum.splits)
  let ?sorted = "array_sort (compareEntries lc) es"
  have ok': "list_all
            (\<lambda>e. case shouldIgnore (entry_name e) (entry_isDirectory e)
                         (path_join rel (entry_name e)) cfg of
                    Inl err \<Rightarrow> False
                  | Inr ignored \<Rightarrow>
                      ignored \<or> \<not> entry_isDirectory e \<or>
                      renderable fs cfg l (path_join dir (entry_name e))
                        (path_join rel (entry_name e)))
            ?sorted"
    using ok by (simp add: list_all_iff set_array_sort)
  define item where "item =
       (\<lambda>(e, isLast).
          if shouldIgnore (entry_name e) (entry_isDirectory e) (path_join rel (entry_name e)) cfg
               \<noteq> Inr False then []
          else
            (linePrefix prefix isLast @ entry_name e
               @ description_suffix
                   (if includeDescriptions cfg
                    then description_of engine cfg (path_join rel (entry_name e))
                           (entry_isDirectory e)
                    else None)
               @ newline,
             if includeDescriptions cfg
             then warnings_of engine cfg (path_join rel (entry_name e)) (entry_isDirectory e)
             else [])
            # (if entry_isDirectory e
               then rendered_tree engine lc fs cfg l
                      (path_join dir (entry_name e)) (childPrefix prefix isLast)
                      (path_join rel (entry_name e))
               else []))"
  have tree: "rendered_tree engine lc fs cfg (Suc l) dir prefix rel
                = concat (map item (with_last ?sorted))"
    using rd by (simp add: item_def)
  have "generateTree_loop engine lc fs cfg dir d prefix rel ?sorted [] console =
          (Inr ([] @ concat (map fst (concat (map item (with_last ?sorted))))),
           console @ concat (map snd (concat (map item (with_last ?sorted)))))"
  proof (rule tree_loop_rendered[where levels = l])
    show "item =
       (\<lambda>(e, isLast).
          if shouldIgnore (entry_name e) (entry_isDirectory e) (path_join rel (entry_name e)) cfg
               \<noteq> Inr False then []
          else
            (linePrefix prefix isLast @ entry_name e
               @ description_suffix
                   (if includeDescriptions cfg
                    then description_of engine cfg (path_join rel (entry_name e))
                           (entry_isDirectory e)
                    else None)
               @ newline,
             if includeDescriptions cfg
             then warnings_of engine cfg (path_join rel (entry_name e)) (entry_isDirectory e)
             else [])
            # (if entry_isDirectory e
               then rendered_tree engine lc fs cfg l
                      (path_join dir (entry_name e)) (childPrefix prefix isLast)
                      (path_join rel (entry_name e))
               else []))"
      by (rule item_def)
  next
    fix e prefix' console'
    assume "renderable fs cfg l (path_join dir (entry_name e)) (path_join rel (entry_name e))"
    from Suc.IH[OF l this]
    show "generateTree engine lc fs cfg (path_join dir (entry_name e)) (d + 1) prefix'
            (path_join rel (entry_name e)) console' =
          (Inr (concat (map fst (rendered_tree engine lc fs cfg l
                  (path_join dir (entry_name e)) prefix' (path_join rel (entry_name e))))),
           console' @ concat (map snd (rendered_tree engine lc fs cfg l
                  (path_join dir (entry_name e)) prefix' (path_join rel (entry_name e)))))" .
  next
    show "list_all
            (\<lambda>e. case shouldIgnore (entry_name e) (entry_isDirectory e)
                         (path_join rel (entry_name e)) cfg of
                    Inl err \<Rightarrow> False
                  | Inr ignored \<Rightarrow>
                      ignored \<or> \<not> entry_isDirectory e \<or>
                      renderable fs cfg l (path_join dir (entry_name e))
                        (path_join rel (entry_name e)))
            ?sorted"
      by (rule ok')
  qed
  then show ?case using d rd unfolding tree by (simp add: generateTree.simps)
qed

lemma tree_rendered:
  "renderable fs cfg (maxDepth cfg + 1 - depth) dirPath relPath \<Longrightarrow>
   generateTree engine localeCompare fs cfg dirPath depth prefix relPath console =
     (Inr (concat (map fst (rendered_tree engine localeCompare fs cfg (maxDepth cfg + 1 - depth)
                              dirPath prefix relPath))),
      console @ concat (map snd (rendered_tree engine localeCompare fs cfg
                                   (maxDepth cfg + 1 - depth) dirPath prefix relPath)))"
  by (rule tree_rendered_aux[OF refl])

text \<open>The conditions hold and the lines are these for a project of two directories.\<close>

lemma rendered_tree_example:
  "renderable constructor_dir_fs described_config 9 ''/proj'' [] \<and>
   rendered_tree fragment_engine compare_codes constructor_dir_fs described_config 9
       ''/proj'' [] [] =
     [(glyph_not_last @ ''constructor # function Object() { [native code] }'' @ newline, []),
      (glyph_last @ ''src # Sources'' @ newline, []),
      (indent_last @ glyph_last @ ''a.js # JavaScript'' @ newline,
       [''Invalid regex pattern: (''])]"
  by code_simp

text \<open>
  Whatever the environment, the outcome of the rendering, text or failure, is the same
  as with the keys that are not valid expressions removed from the table.
\<close>

lemma without_malformed_keys_simps:
  "maxDepth (without_malformed_keys engine cfg) = maxDepth cfg"
  "includeDescriptions (without_malformed_keys engine cfg) = includeDescriptions cfg"
  "shouldIgnore nm isDirectory relPath (without_malformed_keys engine cfg)
     = shouldIgnore nm isDirectory relPath cfg"
  by (simp_all add: without_malformed_keys_def shouldIgnore_def)

lemma tree_loop_skip_malformed:
  assumes sub: "\<And>e prefix' c1 c2. e \<in> set es \<Longrightarrow>
      fst (generateTree engine lc fs cfg (path_join dir (entry_name e)) (d + 1) prefix'
             (path_join rel (entry_name e)) c1) =
      fst (generateTree engine lc fs (without_malformed_keys engine cfg)
             (path_join dir (entry_name e)) (d + 1) prefix' (path_join rel (entry_name e)) c2)"
  shows "fst (generateTree_loop engine lc fs cfg dir d prefix rel es result c1) =
         fst (generateTree_loop engine lc fs (without_malformed_keys engine cfg) dir d prefix rel
                es result c2)"
  using sub
proof (induction es arbitrary: result c1 c2)
  case Nil
  show ?case by simp
next
  case (Cons e es)
  let ?cfg' = "without_malformed_keys engine cfg"
  let ?n = "entry_name e"
  let ?r = "path_join rel ?n"
  have IH: "\<And>result c1 c2.
         fst (generateTree_loop engine lc fs cfg dir d prefix rel es result c1) =
         fst (generateTree_loop engine lc fs ?cfg' dir d prefix rel es result c2)"
    using Cons.IH Cons.prems by simp
  show ?case
  proof (cases "shouldIgnore ?n (entry_isDirectory e) ?r cfg")
    case (Inl err)
    then show ?thesis by (simp add: without_malformed_keys_simps)
  next
    case (Inr ignored)
    show ?thesis
    proof (cases ignored)
      case True
      then show ?thesis using Inr IH by (simp add: without_malformed_keys_simps)
    next
      case False
      have ign: "shouldIgnore ?n (entry_isDirectory e) ?r cfg = Inr False" using Inr False by simp
      define desc where "desc = (if includeDescriptions cfg
                    then description_of engine cfg ?r (entry_isDirectory e) else None)"
      define k1 where "k1 = c1 @ (if includeDescriptions cfg
             then warnings_of engine cfg ?r (entry_isDirectory e) else [])"
      define k2 where "k2 = c2 @ (if includeDescriptions cfg
             then warnings_of engine ?cfg' ?r (entry_isDirectory e) else [])"
      have g1: "(if includeDescriptions cfg
                 then getDescription engine ?r (entry_isDirectory e) cfg c1
                 else (None, c1)) = (desc, k1)"
        by (simp add: desc_def k1_def getDescription_described)
      have g2: "(if includeDescriptions cfg
                 then getDescription engine ?r (entry_isDirectory e) ?cfg' c2
                 else (None, c2)) = (desc, k2)"
        by (simp add: desc_def k2_def getDescription_described description_without_malformed)
      show ?thesis
      proof (cases "entry_isDirectory e")
        case isdir: True
        define sub1 where "sub1 = generateTree engine lc fs cfg (path_join dir ?n) (d + 1)
            (childPrefix prefix (es = [])) ?r k1"
        define sub2 where "sub2 = generateTree engine lc fs ?cfg' (path_join dir ?n) (d + 1)
            (childPrefix prefix (es = [])) ?r k2"
        have same: "fst sub1 = fst sub2"
          using Cons.prems[of e "childPrefix prefix (es = [])" k1 k2]
          by (simp add: sub1_def sub2_def)
        obtain t m1 where s1: "sub1 = (t, m1)" by (cases sub1)
        then obtain m2 where s2: "sub2 = (t, m2)" using same by (cases sub2) simp
        note s = s1[unfolded sub1_def] s2[unfolded sub2_def]
        show ?thesis
        proof (cases t)
          case (Inl err)
          then show ?thesis using ign g1 g2 isdir s
            by (simp add: without_malformed_keys_simps)
        next
          case (Inr children)
          then show ?thesis using ign g1 g2 isdir s IH
            by (simp add: without_malformed_keys_simps)
        qed
      next
        case notdir: False
        then show ?thesis using ign g1 g2 IH
          by (simp add: without_malformed_keys_simps)
      qed
    qed
  qed
qed

lemma tree_skip_malformed_aux:
  "levels = maxDepth cfg + 1 - d \<Longrightarrow>
   fst (generateTree engine lc fs cfg dir d prefix rel c1) =
   fst (generateTree engine lc fs (without_malformed_keys engine cfg) dir d prefix rel c2)"
proof (induction levels arbitrary: dir d prefix rel c1 c2)
  case 0
  then show ?case by (simp add: generateTree.simps without_malformed_keys_simps)
next
  case (Suc l)
  then have d: "d \<le> maxDepth cfg" and l: "l = maxDepth cfg + 1 - (d + 1)" by auto
  show ?case
  proof (cases "readdir fs dir")
    case (Inl err)
    then show ?thesis using d by (simp add: generateTree.simps without_malformed_keys_simps)
  next
    case (Inr es)
    from tree_loop_skip_malformed[of "array_sort (compareEntries lc) es" engine lc fs cfg dir d
           rel prefix "[]" c1 c2] Suc.IH[OF l]
    show ?thesis using d Inr by (simp add: generateTree.simps without_malformed_keys_simps)
  qed
qed

lemma tree_skip_malformed:
  "fst (generateTree engine lc fs cfg dir d prefix rel c1) =
   fst (generateTree engine lc fs (without_malformed_keys engine cfg) dir d prefix rel c2)"
  by (rule tree_skip_malformed_aux[OF refl])

subsection \<open>Connectors\<close>

text \<open>
  C7: in the claim's own example, a root with the directory \<^verbatim>\<open>a\<close> and the file
  \<^verbatim>\<open>b.txt\<close>, the lines and connectors are as claimed (\<open>tree_of_directory_and_file\<close>
  below).  But the code decides \<^verbatim>\<open>isLast\<close> by the position among all sorted entries,
  before the ignored ones are left out.  With a root that holds the directory \<^verbatim>\<open>src\<close>
  and the ignored file \<^verbatim>\<open>.DS_Store\<close>, the only rendered entry \<^verbatim>\<open>src\<close> gets the
  connector of a sibling that is not the last, and its child the matching continuation
  prefix, for every collation.
\<close>


theorem last_sibling_glyph_failing_input:
  "generateTree engine localeCompare ds_store_fs example_config ''/proj'' 0 [] [] [] =
     (Inr (glyph_not_last @ ''src'' @ newline @
           indent_not_last @ glyph_last @ ''a.js'' @ newline), [])"
  by (simp add: generateTree.simps ds_store_fs_def example_config_def array_sort_def
        compareEntries_def shouldIgnore_def getDescription_def linePrefix_def childPrefix_def
        description_suffix_def path_join_def path_normalize_def normalizeString_def
        normalizeSegments_def normalize_step_def property_def Object_prototype_def)

lemma tree_of_directory_and_file:
  "generateTree engine localeCompare dir_and_file_fs example_config ''/proj'' 0 [] [] [] =
     (Inr (glyph_not_last @ ''a'' @ newline @ glyph_last @ ''b.txt'' @ newline), [])"
  by (simp add: generateTree.simps dir_and_file_fs_def example_config_def array_sort_def
        compareEntries_def shouldIgnore_def getDescription_def linePrefix_def childPrefix_def
        description_suffix_def path_join_def path_normalize_def normalizeString_def
        normalizeSegments_def normalize_step_def property_def Object_prototype_def)

subsection \<open>Patterns that are not valid expressions\<close>

text \<open>
  C4: the claim does not hold of the code.  \<^verbatim>\<open>shouldIgnore\<close> compiles each ignore
  pattern without a handler, unlike \<^verbatim>\<open>getDescription\<close>: with the ignore pattern
  \<^verbatim>\<open>(tmp\<close> the expression \<^verbatim>\<open>^(tmp$\<close> is rejected, and the \<^verbatim>\<open>SyntaxError\<close> ends the
  flat-list walk and the tree rendering of the example project.
\<close>


theorem malformed_ignore_pattern_failing_input:
  "RegExp_new (pattern_source ''(tmp'') = Inl SyntaxError \<and>
   shouldIgnore ''.env.example'' False ''.env.example'' unclosed_group_config = Inl SyntaxError \<and>
   getAllFiles sorted_listing_fs unclosed_group_config ''/proj'' 0 [] = Inl SyntaxError \<and>
   generateTree engine compare_codes sorted_listing_fs unclosed_group_config ''/proj'' 0 [] [] []
     = (Inl SyntaxError, [])"
  by code_simp

text \<open>
  C8: the claim does not hold of the code for a directory named like a member that
  every object inherits.  \<^verbatim>\<open>getDescription\<close> reads the description of a directory by
  the property access \<^verbatim>\<open>config.directoryDescriptions[relativePath]\<close>, which is not
  limited to the entries of the table, while the loop for the files goes through
  \<^verbatim>\<open>Object.entries\<close>, the own entries only.  The table of \<open>described_config\<close> has the
  key \<^verbatim>\<open>(\<close>, which is not a valid expression, and no entry for \<^verbatim>\<open>constructor\<close>; still
  the directory \<^verbatim>\<open>constructor\<close> is rendered with the text of the inherited function as
  its description, and so it is with the empty tables of \<open>example_config\<close>.  The rest
  of the rendering is as claimed: the key \<^verbatim>\<open>(\<close> is skipped with its warning, every
  entry has its line, \<^verbatim>\<open>src\<close> has the description under exactly its path and \<^verbatim>\<open>a.js\<close>
  that of the first key that matches.
\<close>

theorem inherited_member_description_failing_input:
  "malformed fragment_engine ''('' \<and>
   map_of (directoryDescriptions described_config) ''constructor'' = None \<and>
   getDescription fragment_engine ''constructor'' True described_config [] =
     (Some ''function Object() { [native code] }'', []) \<and>
   getDescription fragment_engine ''constructor'' True example_config [] =
     (Some ''function Object() { [native code] }'', []) \<and>
   generateTree fragment_engine compare_codes constructor_dir_fs described_config
       ''/proj'' 0 [] [] [] =
     (Inr (glyph_not_last @ ''constructor # function Object() { [native code] }'' @ newline @
           glyph_last @ ''src # Sources'' @ newline @
           indent_last @ glyph_last @ ''a.js # JavaScript'' @ newline),
      [''Invalid regex pattern: (''])"
  by code_simp

section \<open>Ignore patterns\<close>

lemma convert_Cons:
  "replace_stars (replace_dots (c # p)) =
     (if c = CHR ''.'' then [backslash, CHR ''.''] else if c = CHR ''*'' then ''.*'' else [c])
     @ replace_stars (replace_dots p)"
  by (simp add: replace_stars_def replace_dots_def backslash_def)

lemma ascii_simps: "ascii backslash" "ascii CHR ''.''" "ascii CHR ''*''" "ascii CHR ''^''" "ascii CHR ''$''"
  by (simp_all add: ascii_def backslash_def)

lemma not_alnum_dot: "\<not> alphanumeric CHR ''.''"
  by (simp add: alphanumeric_def)

declare parse.simps [simp del]

lemma parse_plain:
  assumes "ascii c" "\<not> regex_special c" "c \<noteq> CHR ''.''" "c \<noteq> CHR ''*''"
  shows "parse f stack (c # cs) = parse (push_term (Chr c) AtomQ f) stack cs"
  using assms by (simp add: parse.simps regex_special_def)

lemma parse_escaped_dot:
  "parse f stack (backslash # CHR ''.'' # cs) = parse (push_term (Chr CHR ''.'') AtomQ f) stack cs"
  using ascii_simps(1) by (simp add: parse.simps ascii_simps(2-) not_alnum_dot backslash_def)

lemma parse_dot_star:
  "parse f stack (CHR ''.'' # CHR ''*'' # cs) =
     parse (Frame (alts f) (Star AnyChar # terms f) Quantified) stack cs"
  by (simp add: parse.simps ascii_simps push_term_def backslash_def)

lemma parse_converted:
  "glob_pattern p \<Longrightarrow>
   \<exists>q. parse f stack (replace_stars (replace_dots p) @ rest) =
       parse (Frame (alts f) (rev (map glob_term p) @ terms f) q) stack rest"
proof (induction p arbitrary: f)
  case Nil
  show ?case
    by (simp add: replace_stars_def replace_dots_def) (rule exI[of _ "lastq f"], simp)
next
  case (Cons c p)
  then have c: "ascii c" "\<not> regex_special c" and p: "glob_pattern p"
    by (simp_all add: glob_pattern_def)
  consider "c = CHR ''.''" | "c = CHR ''*''" | "c \<noteq> CHR ''.''" "c \<noteq> CHR ''*''" by blast
  then show ?case
  proof cases
    case 1
    from Cons.IH[OF p, of "push_term (Chr CHR ''.'') AtomQ f"] 1 show ?thesis
      by (simp add: convert_Cons parse_escaped_dot glob_term_def push_term_def)
  next
    case 2
    from Cons.IH[OF p, of "Frame (alts f) (Star AnyChar # terms f) Quantified"] 2 show ?thesis
      by (simp add: convert_Cons parse_dot_star glob_term_def)
  next
    case 3
    from Cons.IH[OF p, of "push_term (Chr c) AtomQ f"] 3 show ?thesis
      by (simp add: convert_Cons parse_plain[OF c 3] glob_term_def push_term_def)
  qed
qed

lemma RegExp_new_glob:
  assumes "glob_pattern p"
  shows "RegExp_new (pattern_source p) = Inr (mk_seq (Bol # map glob_term p @ [Eol]))"
proof -
  from parse_converted[OF assms, of "push_term Bol NoAtom (Frame [] [] NoAtom)" "[]" "''$''"]
  obtain q where
    "parse (push_term Bol NoAtom (Frame [] [] NoAtom)) [] (replace_stars (replace_dots p) @ ''$'')
       = parse (Frame [] (rev (map glob_term p) @ [Bol]) q) [] ''$''"
    by (auto simp: push_term_def)
  then show ?thesis
    by (simp add: parse.simps RegExp_new_def pattern_source_def ascii_simps push_term_def
          close_frame_def backslash_def)
qed

lemma ends_mk_seq_Nil: "ends (mk_seq []) st = [st]"
  by (simp add: mk_seq_def)

lemma ends_mk_seq_Cons: "ends (mk_seq (t # ts)) st = concat (map (ends (mk_seq ts)) (ends t st))"
  by (simp add: mk_seq_def)

lemma ends_star_any_Nil: "ends (Star AnyChar) (b, []) = [(b, [])]"
  by simp

lemma ends_star_any_Cons:
  "ends (Star AnyChar) (b, x # xs) =
     (b, x # xs) # (if is_line_terminator x then [] else ends (Star AnyChar) (False, xs))"
  by simp

lemma glob_accept:
  "(ends (mk_seq (map glob_term p @ [Eol])) (b, s) \<noteq> []) = glob_match p s"
proof (induction p s arbitrary: b rule: glob_match.induct)
  case (1 s)
  show ?case by (simp add: ends_mk_seq_Cons ends_mk_seq_Nil)
next
  case (2 c p s)
  show ?case
  proof (cases "c = CHR ''*''")
    case star: True
    show ?thesis
    proof (cases s)
      case Nil
      then show ?thesis using star "2.IH"(1)[OF star, of b]
        by (simp add: glob_term_def ends_mk_seq_Cons ends_star_any_Nil del: ends.simps(8))
    next
      case (Cons x xs)
      show ?thesis
      proof (cases "is_line_terminator x")
        case True
        then show ?thesis using star Cons "2.IH"(1)[OF star, of b]
          by (simp add: glob_term_def ends_mk_seq_Cons ends_star_any_Cons del: ends.simps(8))
      next
        case False
        let ?rest = "mk_seq (map glob_term p @ [Eol])"
        let ?A = "ends ?rest (b, s)"
        let ?B = "concat (map (ends ?rest) (ends (Star AnyChar) (False, xs)))"
        have unfold: "\<And>st. ends (mk_seq (map glob_term (c # p) @ [Eol])) st =
                 concat (map (ends ?rest) (ends (Star AnyChar) st))"
          using star by (simp add: glob_term_def ends_mk_seq_Cons del: ends.simps(8))
        have B: "(?B \<noteq> []) = glob_match (c # p) xs"
          using "2.IH"(2)[OF star Cons, of False] unfolding unfold .
        have A: "(?A \<noteq> []) = glob_match p s"
          by (rule "2.IH"(1)[OF star])
        have "ends (Star AnyChar) (b, s) = (b, s) # ends (Star AnyChar) (False, xs)"
          unfolding Cons using False by (simp only: ends_star_any_Cons if_False)
        then have "ends (mk_seq (map glob_term (c # p) @ [Eol])) (b, s) = ?A @ ?B"
          unfolding unfold by (simp del: ends.simps)
        then have L: "(ends (mk_seq (map glob_term (c # p) @ [Eol])) (b, s) \<noteq> [])
                        = (glob_match p s \<or> glob_match (c # p) xs)"
          using A B by (simp del: ends.simps glob_match.simps)
        have R: "glob_match (c # p) s = (glob_match p s \<or> glob_match (c # p) xs)"
          by (subst glob_match.simps(2)) (simp add: star Cons False del: glob_match.simps)
        show ?thesis unfolding L R ..
      qed
    qed
  next
    case nostar: False
    show ?thesis
    proof (cases s)
      case Nil
      then show ?thesis using nostar by (simp add: glob_term_def ends_mk_seq_Cons)
    next
      case (Cons x xs)
      then show ?thesis using nostar "2.IH"(3)[OF nostar Cons, of False]
        by (simp add: glob_term_def ends_mk_seq_Cons)
    qed
  qed
qed

lemma search_anchored_False: "search (mk_seq (Bol # ts)) False s = False"
  by (induction s) (simp_all add: ends_mk_seq_Cons)

lemma search_anchored: "search (mk_seq (Bol # ts)) True s = (ends (mk_seq ts) (True, s) \<noteq> [])"
  by (cases s) (simp_all add: ends_mk_seq_Cons search_anchored_False)

lemma RegExp_test_glob:
  "RegExp_test (mk_seq (Bol # map glob_term p @ [Eol])) s =
     (if list_all ascii s then Inr (glob_match p s) else Inl Unmodelled)"
  by (simp add: RegExp_test_def search_anchored glob_accept)

lemma some_pattern_glob:
  assumes "list_all ascii nm" "list_all ascii rel"
  shows "list_all glob_pattern ps \<Longrightarrow>
         some_pattern nm rel ps = Inr (\<exists>p\<in>set ps. glob_match p nm \<or> glob_match p rel)"
proof (induction ps)
  case Nil
  show ?case by simp
next
  case (Cons p ps)
  then have p: "glob_pattern p" and ps: "list_all glob_pattern ps" by simp_all
  show ?case
    using Cons.IH[OF ps] assms
    by (cases "glob_match p nm"; cases "glob_match p rel")
       (simp_all add: RegExp_new_glob[OF p] RegExp_test_glob)
qed

lemma glob_match_no_star: "CHR ''*'' \<notin> set p \<Longrightarrow> glob_match p s = (s = p)"
proof (induction p arbitrary: s)
  case Nil
  show ?case by simp
next
  case (Cons c p)
  then have c: "c \<noteq> CHR ''*''" and IH: "\<And>s. glob_match p s = (s = p)" by auto
  show ?case
    by (subst glob_match.simps(2)) (auto simp: c IH split: list.splits simp del: glob_match.simps)
qed

text \<open>
  C10, as the claim states it, fails.  The pattern \<^verbatim>\<open>a|b\<close> has no star and becomes the
  expression \<^verbatim>\<open>^a|b$\<close>, whose alternatives are anchored at one end only: it ignores
  the file \<^verbatim>\<open>ax\<close>, which it does not equal.  And the star does not stand for every
  substring: the pattern \<^verbatim>\<open>*\<close> does not ignore a name with a line feed in it.
\<close>

theorem unanchored_pattern_counterexample:
  "CHR ''*'' \<notin> set ''a|b'' \<and> ''a|b'' \<noteq> ''ax'' \<and>
   shouldIgnore ''ax'' False ''ax'' alternation_config = Inr True \<and>
   shouldIgnore [CHR ''a'', CHR 0x0A, CHR ''b''] False [CHR ''a'', CHR 0x0A, CHR ''b''] star_config
     = Inr False"
  by code_simp

text \<open>
  C10, amended: for ignore patterns of ASCII characters that contain none of the
  characters \<^verbatim>\<open>^ $ + ? ( ) [ ] { } |\<close> and no backslash, and ASCII names, an entry is ignored exactly
  when its name is in the literal list of its kind or some pattern matches the whole
  name or the whole relative path, a star standing for any substring without a line
  break and a dot for itself; so such a pattern without a star ignores an entry
  exactly when it equals the name or the relative path, and the pattern \<^verbatim>\<open>log\<close> does
  not ignore the file \<^verbatim>\<open>app.log\<close>.
\<close>

theorem ignore_patterns_are_anchored_globs:
  "(list_all glob_pattern (patterns (ignore cfg)) \<and> list_all ascii nm \<and> list_all ascii relPath
    \<longrightarrow> shouldIgnore nm isDirectory relPath cfg =
          Inr (nm \<in> set (if isDirectory then directories (ignore cfg) else files (ignore cfg)) \<or>
               (\<exists>p\<in>set (patterns (ignore cfg)). glob_match p nm \<or> glob_match p relPath))) \<and>
   (glob_pattern pattern \<and> CHR ''*'' \<notin> set pattern \<and> list_all ascii nm \<and> list_all ascii relPath
    \<longrightarrow> some_pattern nm relPath [pattern] = Inr (nm = pattern \<or> relPath = pattern)) \<and>
   shouldIgnore ''app.log'' False ''app.log'' log_literal_config = Inr False"
proof (intro conjI impI)
  assume "list_all glob_pattern (patterns (ignore cfg)) \<and> list_all ascii nm \<and> list_all ascii relPath"
  then show "shouldIgnore nm isDirectory relPath cfg =
          Inr (nm \<in> set (if isDirectory then directories (ignore cfg) else files (ignore cfg)) \<or>
               (\<exists>p\<in>set (patterns (ignore cfg)). glob_match p nm \<or> glob_match p relPath))"
    using some_pattern_glob[of nm relPath "patterns (ignore cfg)"]
    by (simp add: shouldIgnore_def Let_def)
next
  assume a: "glob_pattern pattern \<and> CHR ''*'' \<notin> set pattern \<and> list_all ascii nm \<and>
             list_all ascii relPath"
  then have "some_pattern nm relPath [pattern] =
               Inr (\<exists>p\<in>set [pattern]. glob_match p nm \<or> glob_match p relPath)"
    using some_pattern_glob[of nm relPath "[pattern]"] by simp
  then show "some_pattern nm relPath [pattern] = Inr (nm = pattern \<or> relPath = pattern)"
    using a by (simp add: glob_match_no_star del: some_pattern.simps)
next
  show "shouldIgnore ''app.log'' False ''app.log'' log_literal_config = Inr False"
    by code_simp
qed

theorem ignore_patterns_are_anchored_globs_witness:
  "list_all glob_pattern (patterns (ignore log_pattern_config)) \<and>
   list_all ascii ''c.log'' \<and> list_all ascii ''src/c.log'' \<and>
   shouldIgnore ''c.log'' False ''src/c.log'' log_pattern_config = Inr True \<and>
   glob_match ''*.log'' ''c.log'' \<and>
   glob_pattern ''log'' \<and> CHR ''*'' \<notin> set ''log'' \<and>
   some_pattern ''c.log'' ''src/c.log'' [''log''] = Inr False"
proof -
  have h1: "list_all glob_pattern (patterns (ignore log_pattern_config))" by code_simp
  have h2: "list_all ascii ''c.log''" by code_simp
  have h3: "list_all ascii ''src/c.log''" by code_simp
  have h4: "glob_pattern ''log''" by code_simp
  have h5: "CHR ''*'' \<notin> set ''log''" by simp
  have g: "glob_match ''*.log'' ''c.log''" by code_simp
  note T = ignore_patterns_are_anchored_globs[where cfg = log_pattern_config
      and nm = "''c.log''" and relPath = "''src/c.log''" and isDirectory = False
      and pattern = "''log''"]
  have v: "(''c.log'' \<in> set (if False then directories (ignore log_pattern_config)
                                else files (ignore log_pattern_config)) \<or>
            (\<exists>p\<in>set (patterns (ignore log_pattern_config)).
                glob_match p ''c.log'' \<or> glob_match p ''src/c.log'')) = True"
    by code_simp
  have c1: "shouldIgnore ''c.log'' False ''src/c.log'' log_pattern_config = Inr True"
    using T[THEN conjunct1] h1 h2 h3 unfolding v by blast
  have w: "(''c.log'' = ''log'' \<or> ''src/c.log'' = ''log'') = False" by simp
  have c2: "some_pattern ''c.log'' ''src/c.log'' [''log''] = Inr False"
    using T[THEN conjunct2, THEN conjunct1] h4 h5 h2 h3 unfolding w by blast
  show ?thesis using h1 h2 h3 h4 h5 g c1 c2 by blast
qed


end
